theory Spec2Isabelle
  imports Main "HOL-Library.Sublist" "HOL-Library.Word"
begin

unbundle bit_operations_syntax

section \<open>Text ingestion: normalisation, chunking, chunk identity, batch embedding\<close>

text \<open>
  The development follows \<^verbatim>\<open>src/data-ingestion/ingest.py\<close>.
  A Python \<^verbatim>\<open>str\<close> is modelled as a \<^typ>\<open>string\<close> whose characters are the code points
  U+0000 .. U+00FF, one \<^typ>\<open>char\<close> per code point, so \<^const>\<open>length\<close> is Python's
  \<^verbatim>\<open>len\<close>. The character tables below (white space, decimal digits, letter case) are
  Python's tables restricted to that range; every statement proved here is a statement about
  texts over that range.
\<close>

subsection \<open>Configuration constants\<close>

definition CHUNK_SIZE :: nat where
  "CHUNK_SIZE = 1000"

definition CHUNK_OVERLAP :: nat where
  "CHUNK_OVERLAP = 200"

definition MIN_CHUNK_SIZE :: nat where
  "MIN_CHUNK_SIZE = 300"

subsection \<open>Character classes\<close>

definition newline :: char where
  "newline = CHR 0x0A"

text \<open>
  \<^verbatim>\<open>\s\<close> of \<^verbatim>\<open>re\<close> on a \<^verbatim>\<open>str\<close> pattern and the characters removed by \<^verbatim>\<open>str.strip()\<close> and
  \<^verbatim>\<open>str.split()\<close>: TAB, LF, VT, FF, CR, the separators U+001C .. U+001F, SPACE, NEL (U+0085) and
  NBSP (U+00A0).
\<close>

definition is_space :: "char \<Rightarrow> bool" where
  "is_space c = (let n = (of_char c :: int) in
     (9 \<le> n \<and> n \<le> 13) \<or> (28 \<le> n \<and> n \<le> 32) \<or> n = 133 \<or> n = 160)"

text \<open>\<^verbatim>\<open>\d\<close>: the decimal digits; below U+0100 these are \<^verbatim>\<open>0\<close> .. \<^verbatim>\<open>9\<close>.\<close>

definition is_digit :: "char \<Rightarrow> bool" where
  "is_digit c = (let n = (of_char c :: int) in 48 \<le> n \<and> n \<le> 57)"

text \<open>Characters with the Uppercase property: A-Z, U+00C0 .. U+00D6, U+00D8 .. U+00DE.\<close>

definition is_upper_char :: "char \<Rightarrow> bool" where
  "is_upper_char c = (let n = (of_char c :: int) in
     (65 \<le> n \<and> n \<le> 90) \<or> (192 \<le> n \<and> n \<le> 214) \<or> (216 \<le> n \<and> n \<le> 222))"

text \<open>
  Characters with the Lowercase property: a-z, U+00AA, U+00B5, U+00BA, U+00DF .. U+00F6 and
  U+00F8 .. U+00FF. No character below U+0100 is title-case.
\<close>

definition is_lower_char :: "char \<Rightarrow> bool" where
  "is_lower_char c = (let n = (of_char c :: int) in
     (97 \<le> n \<and> n \<le> 122) \<or> n = 170 \<or> n = 181 \<or> n = 186 \<or>
     (223 \<le> n \<and> n \<le> 246) \<or> (248 \<le> n \<and> n \<le> 255))"

text \<open>\<^verbatim>\<open>str.lower()\<close>: every upper-case character of the range maps to the one 32 above it.\<close>

definition lower_char :: "char \<Rightarrow> char" where
  "lower_char c = (if is_upper_char c then char_of ((of_char c :: int) + 32) else c)"

definition lower :: "string \<Rightarrow> string" where
  "lower s = map lower_char s"

text \<open>
  \<^verbatim>\<open>str.isupper()\<close>: no character is lower-case (or title-case) and at least one is
  upper-case.
\<close>

definition isupper :: "string \<Rightarrow> bool" where
  "isupper s = (list_all (\<lambda>c. \<not> is_lower_char c) s \<and> list_ex is_upper_char s)"

subsection \<open>String operations\<close>

text \<open>\<^verbatim>\<open>str.strip()\<close> with no argument.\<close>

definition strip :: "string \<Rightarrow> string" where
  "strip s = rev (dropWhile is_space (rev (dropWhile is_space s)))"

text \<open>\<^verbatim>\<open>sub in s\<close> for strings.\<close>

fun contains :: "string \<Rightarrow> string \<Rightarrow> bool" where
  "contains sub [] = (sub = [])"
| "contains sub (c # cs) = (prefix sub (c # cs) \<or> contains sub cs)"

text \<open>
  \<^verbatim>\<open>s.split('\n\n')\<close>: the pieces between successive, non-overlapping occurrences of two
  line feeds, scanning from the left; a text without the separator is a single piece, and
  so is the empty text.
\<close>

fun split_paragraphs :: "string \<Rightarrow> string list" where
  "split_paragraphs [] = [[]]"
| "split_paragraphs [c] = [[c]]"
| "split_paragraphs (c # d # cs) =
     (if c = newline \<and> d = newline then [] # split_paragraphs cs
      else (case split_paragraphs (d # cs) of
              [] \<Rightarrow> [[c]]
            | p # ps \<Rightarrow> (c # p) # ps))"

text \<open>\<^verbatim>\<open>s.split()\<close>: the maximal runs of characters that are not white space.\<close>

function split_ws :: "string \<Rightarrow> string list" where
  "split_ws s =
     (case dropWhile is_space s of
        [] \<Rightarrow> []
      | c # cs \<Rightarrow> takeWhile (\<lambda>x. \<not> is_space x) (c # cs)
                  # split_ws (dropWhile (\<lambda>x. \<not> is_space x) cs))"
  by pat_completeness auto
termination
proof (relation "measure length")
  show "wf (measure length)" by simp
next
  fix s :: string and c cs
  assume "dropWhile is_space s = c # cs"
  then have "length (c # cs) \<le> length s"
    by (metis length_dropWhile_le)
  moreover have "length (dropWhile (\<lambda>x. \<not> is_space x) cs) \<le> length cs"
    by (rule length_dropWhile_le)
  ultimately show "(dropWhile (\<lambda>x. \<not> is_space x) cs, s) \<in> measure length"
    by simp
qed

declare split_ws.simps [simp del]

text \<open>\<^verbatim>\<open>sep.join(parts)\<close>.\<close>

fun join :: "string \<Rightarrow> string list \<Rightarrow> string" where
  "join sep [] = []"
| "join sep [p] = p"
| "join sep (p # q # ps) = p @ sep @ join sep (q # ps)"

text \<open>\<^verbatim>\<open>xs[-n:]\<close> for a positive \<open>n\<close>: the last \<open>n\<close> elements, or all of them.\<close>

definition last_n :: "nat \<Rightarrow> 'a list \<Rightarrow> 'a list" where
  "last_n n xs = drop (length xs - n) xs"

text \<open>\<^verbatim>\<open>s[i:j]\<close> for \<open>0 \<le> i \<le> j\<close>.\<close>

definition slice :: "nat \<Rightarrow> nat \<Rightarrow> 'a list \<Rightarrow> 'a list" where
  "slice i j xs = take (j - i) (drop i xs)"

subsection \<open>Regular-expression substitution\<close>

text \<open>
  \<^verbatim>\<open>re.sub(pattern, repl, text)\<close> replaces the leftmost non-overlapping matches, scanning
  from the left. A pattern is given by its matcher: \<open>m s\<close> is the number of characters the
  pattern consumes when it is tried at the start of \<open>s\<close>, or \<open>None\<close> when it does not
  match there. Every pattern of \<^verbatim>\<open>clean_text\<close> consumes at least one character and none
  looks behind its starting point, so a matcher depends on the rest of the text only; a
  matcher that answered \<open>0\<close> is treated as no match.
\<close>

fun re_sub :: "(string \<Rightarrow> nat option) \<Rightarrow> string \<Rightarrow> string \<Rightarrow> string" where
  "re_sub m repl [] = []"
| "re_sub m repl (c # cs) =
     (case m (c # cs) of
        None \<Rightarrow> c # re_sub m repl cs
      | Some n \<Rightarrow> if n = 0 then c # re_sub m repl cs
                  else repl @ re_sub m repl (drop n (c # cs)))"

text \<open>\<^verbatim>\<open>\s+\<close>: the longest run of white space, at least one character.\<close>

definition match_ws :: "string \<Rightarrow> nat option" where
  "match_ws s = (let n = length (takeWhile is_space s) in if n = 0 then None else Some n)"

text \<open>The position of the last occurrence of \<open>x\<close> in a list.\<close>

fun last_index :: "'a \<Rightarrow> 'a list \<Rightarrow> nat option" where
  "last_index x [] = None"
| "last_index x (y # ys) =
     (case last_index x ys of
        Some k \<Rightarrow> Some (Suc k)
      | None \<Rightarrow> if x = y then Some 0 else None)"

text \<open>
  The tail \<^verbatim>\<open>\d+\s*\n\<close> shared by the two page patterns: all the digits that follow (one at
  least), then the white space after them up to and including its last line feed. The
  greedy \<^verbatim>\<open>\s*\<close> first takes the whole run of white space and gives characters back until
  a line feed follows; giving digits back never helps, because a digit is neither white
  space nor a line feed.
\<close>

definition match_digits_ws_nl :: "string \<Rightarrow> nat option" where
  "match_digits_ws_nl s =
     (let ds = takeWhile is_digit s;
          ws = takeWhile is_space (dropWhile is_digit s)
      in if ds = [] then None
         else (case last_index newline ws of
                 None \<Rightarrow> None
               | Some k \<Rightarrow> Some (length ds + k + 1)))"

text \<open>\<^verbatim>\<open>\n\d+\s*\n\<close>: a line that holds only a number.\<close>

definition match_page_number :: "string \<Rightarrow> nat option" where
  "match_page_number s =
     (case s of
        [] \<Rightarrow> None
      | c # r \<Rightarrow>
          if c \<noteq> newline then None
          else (case match_digits_ws_nl r of
                  None \<Rightarrow> None
                | Some n \<Rightarrow> Some (1 + n)))"

text \<open>
  \<^verbatim>\<open>\n\s*Page \d+\s*\n\<close>: a line that holds only \<^verbatim>\<open>Page N\<close>. The first \<^verbatim>\<open>\s*\<close> has to take
  the whole run of white space, since \<^verbatim>\<open>P\<close> is not white space.
\<close>

definition match_page_footer :: "string \<Rightarrow> nat option" where
  "match_page_footer s =
     (case s of
        [] \<Rightarrow> None
      | c # r \<Rightarrow>
          if c \<noteq> newline then None
          else (let ws = takeWhile is_space r; r1 = dropWhile is_space r
                in if \<not> prefix ''Page '' r1 then None
                   else (case match_digits_ws_nl (drop 5 r1) of
                           None \<Rightarrow> None
                         | Some n \<Rightarrow> Some (1 + length ws + 5 + n))))"

text \<open>
  The URL pattern \<^verbatim>\<open>http[s]?://(?:[a-zA-Z]|[0-9]|[$-_@.&+]|[!*\\(\\),]|(?:%[0-9a-fA-F][0-9a-fA-F]))+\<close>.
  In the raw string \<^verbatim>\<open>\\\<close> is an escaped backslash, so the fourth class holds
  \<^verbatim>\<open>! * \ ( ) ,\<close>; \<^verbatim>\<open>[$-_]\<close> is the range U+0024 .. U+005F.
\<close>

definition is_url_char :: "char \<Rightarrow> bool" where
  "is_url_char c = (let n = (of_char c :: int) in
     ((97 \<le> n \<and> n \<le> 122) \<or> (65 \<le> n \<and> n \<le> 90))
     \<or> (48 \<le> n \<and> n \<le> 57)
     \<or> ((36 \<le> n \<and> n \<le> 95) \<or> c = CHR ''@'' \<or> c = CHR ''.'' \<or> c = CHR ''&'' \<or> c = CHR ''+'')
     \<or> (c = CHR ''!'' \<or> c = CHR ''*'' \<or> c = CHR 0x5C \<or> c = CHR ''('' \<or> c = CHR '')''
          \<or> c = CHR '',''))"

definition is_hex :: "char \<Rightarrow> bool" where
  "is_hex c = (let n = (of_char c :: int) in
     (48 \<le> n \<and> n \<le> 57) \<or> (97 \<le> n \<and> n \<le> 102) \<or> (65 \<le> n \<and> n \<le> 70))"

text \<open>
  The repeated group: at each position the alternatives are tried in order, a single
  character of the four classes first, then a percent escape. Nothing follows the group,
  so the repetition stops at the first position where no alternative matches.
\<close>

fun url_body :: "string \<Rightarrow> nat" where
  "url_body [] = 0"
| "url_body (c # cs) =
     (if is_url_char c then Suc (url_body cs)
      else (case cs of
              h1 # h2 # r \<Rightarrow>
                if c = CHR ''%'' \<and> is_hex h1 \<and> is_hex h2 then 3 + url_body r else 0
            | _ \<Rightarrow> 0))"

definition match_url :: "string \<Rightarrow> nat option" where
  "match_url s =
     (let k = (if prefix ''https://'' s then Some 8
               else if prefix ''http://'' s then Some 7
               else None)
      in case k of
           None \<Rightarrow> None
         | Some k \<Rightarrow> (let b = url_body (drop k s) in if b = 0 then None else Some (k + b)))"

text \<open>
  \<^verbatim>\<open>\S+@\S+\<close>: the first \<^verbatim>\<open>\S+\<close> takes the whole run of non-space characters and gives
  characters back until an \<^verbatim>\<open>@\<close> follows that is itself followed by a non-space character;
  the second \<^verbatim>\<open>\S+\<close> then takes the rest of the run. So the pattern matches at the start of
  a run exactly when the run has an \<^verbatim>\<open>@\<close> that is neither its first nor its last
  character, and it consumes the whole run.
\<close>

definition match_email :: "string \<Rightarrow> nat option" where
  "match_email s =
     (let tok = takeWhile (\<lambda>c. \<not> is_space c) s
      in if list_ex (\<lambda>c. c = CHR ''@'') (butlast (tl tok)) then Some (length tok) else None)"

text \<open>A character class \<^verbatim>\<open>[...]\<close>: one character of the class.\<close>

definition match_class :: "(char \<Rightarrow> bool) \<Rightarrow> string \<Rightarrow> nat option" where
  "match_class P s = (case s of [] \<Rightarrow> None | c # _ \<Rightarrow> if P c then Some 1 else None)"

subsection \<open>clean_text\<close>

text \<open>
  The three last substitutions are on the classes \<^verbatim>\<open>[""]\<close> (the straight double quote,
  written twice), \<^verbatim>\<open>[`]\<close> (the two adjacent literals \<^verbatim>\<open>r'['\<close> and \<^verbatim>\<open>'`]'\<close> are one pattern)
  and the dashes U+2014 and U+2013.
\<close>

definition clean_text :: "string \<Rightarrow> string" where
  "clean_text text =
     (let text = re_sub match_ws '' '' text;
          text = re_sub match_page_number [newline] text;
          text = re_sub match_page_footer [newline] text;
          text = re_sub match_url [] text;
          text = re_sub match_email [] text;
          text = re_sub (match_class (\<lambda>c. c = CHR 0x22 \<or> c = CHR 0x22)) [CHR 0x22] text;
          text = re_sub (match_class (\<lambda>c. c = CHR 0x60)) [CHR 0x27] text;
          text = re_sub (match_class (\<lambda>c. (of_char c :: int) = 8212 \<or> (of_char c :: int) = 8211))
                   ''-'' text
      in strip text)"

subsection \<open>Passages\<close>

text \<open>
  A passage is the dictionary \<^verbatim>\<open>{"text": ..., "metadata": {"book": ..., "chapter": ...,
  "section": ..., "chunk_id": ...}}\<close>, here a flat record.
\<close>

record chunk =
  ctext :: string
  cbook :: string
  cchapter :: string
  csection :: string
  chunk_id :: int

text \<open>\<^verbatim>\<open>str(n)\<close> for an integer, as the f-strings format it.\<close>

definition digit_char :: "nat \<Rightarrow> char" where
  "digit_char d = char_of (48 + d)"

function str_nat :: "nat \<Rightarrow> string" where
  "str_nat n = (if n < 10 then [digit_char n] else str_nat (n div 10) @ [digit_char (n mod 10)])"
  by pat_completeness auto
termination
  by (relation "measure id") auto

declare str_nat.simps [simp del]

definition str_int :: "int \<Rightarrow> string" where
  "str_int i = (if i < 0 then CHR ''-'' # str_nat (nat (- i)) else str_nat (nat i))"

subsection \<open>The paragraph loop of chunk_text\<close>

text \<open>\<^verbatim>\<open>re.match(r'^\d+\.', paragraph)\<close>.\<close>

definition match_number_dot :: "string \<Rightarrow> bool" where
  "match_number_dot p = (takeWhile is_digit p \<noteq> [] \<and> prefix ''.'' (dropWhile is_digit p))"

definition is_heading :: "string \<Rightarrow> bool" where
  "is_heading paragraph =
     (length paragraph < 100 \<and>
      (contains ''chapter'' (lower paragraph) \<or>
       contains ''section'' (lower paragraph) \<or>
       isupper paragraph \<or>
       match_number_dot paragraph))"

record loop_state =
  chunks :: "chunk list"
  current_chunk :: string
  current_chapter :: string
  current_section :: string
  chunk_count :: int

definition init_state :: loop_state where
  "init_state =
     \<lparr>chunks = [], current_chunk = [], current_chapter = ''Introduction'',
      current_section = [], chunk_count = 0\<rparr>"

text \<open>The passage appended at each of the three flush sites of the paragraph path.\<close>

definition flushed :: "string \<Rightarrow> loop_state \<Rightarrow> chunk" where
  "flushed book_name s =
     \<lparr>ctext = strip (current_chunk s), cbook = book_name, cchapter = current_chapter s,
      csection = current_section s, chunk_id = chunk_count s\<rparr>"

text \<open>One iteration of \<^verbatim>\<open>for paragraph in paragraphs\<close>.\<close>

definition para_step :: "string \<Rightarrow> loop_state \<Rightarrow> string \<Rightarrow> loop_state" where
  "para_step book_name s paragraph0 =
     (let paragraph = strip paragraph0 in
      if paragraph = [] then s
      else if is_heading paragraph then
        (let s1 = (if length (current_chunk s) \<ge> MIN_CHUNK_SIZE
                   then s\<lparr>chunks := chunks s @ [flushed book_name s],
                          chunk_count := chunk_count s + 1,
                          current_chunk := []\<rparr>
                   else s)
         in if contains ''chapter'' (lower paragraph)
            then s1\<lparr>current_chapter := paragraph, current_section := []\<rparr>
            else s1\<lparr>current_section := paragraph\<rparr>)
      else if length (current_chunk s) + length paragraph + 2 > CHUNK_SIZE then
        (if length (current_chunk s) \<ge> MIN_CHUNK_SIZE
         then s\<lparr>chunks := chunks s @ [flushed book_name s],
                chunk_count := chunk_count s + 1,
                current_chunk := join '' '' (last_n 30 (split_ws (current_chunk s)))
                                 @ [newline, newline] @ paragraph @ [newline, newline]\<rparr>
         else s\<lparr>current_chunk := current_chunk s @ paragraph @ [newline, newline]\<rparr>)
      else s\<lparr>current_chunk := current_chunk s @ paragraph @ [newline, newline]\<rparr>)"

text \<open>The flush after the loop; it does not advance the counter.\<close>

definition final_flush :: "string \<Rightarrow> loop_state \<Rightarrow> chunk list" where
  "final_flush book_name s =
     (if length (strip (current_chunk s)) \<ge> MIN_CHUNK_SIZE
      then chunks s @ [flushed book_name s]
      else chunks s)"

text \<open>The paragraph path: lines 203 to 282, on the cleaned text.\<close>

definition paragraph_pass :: "string \<Rightarrow> string \<Rightarrow> chunk list" where
  "paragraph_pass clean_text_content book_name =
     final_flush book_name
       (foldl (para_step book_name) init_state (split_paragraphs clean_text_content))"

subsection \<open>The character-stride fallback\<close>

text \<open>
  \<^verbatim>\<open>for i in range(0, len(clean_text_content), CHUNK_SIZE - CHUNK_OVERLAP)\<close>, with the list
  of passages and the counter as loop state.
\<close>

definition fallback_chunk :: "string \<Rightarrow> string \<Rightarrow> int \<Rightarrow> chunk" where
  "fallback_chunk book_name chunk_text_content count =
     \<lparr>ctext = chunk_text_content, cbook = book_name,
      cchapter = ''Section '' @ str_int (count div 10 + 1),
      csection = ''Part '' @ str_int (count mod 10 + 1),
      chunk_id = count\<rparr>"

function fallback_loop :: "string \<Rightarrow> string \<Rightarrow> nat \<Rightarrow> chunk list \<Rightarrow> int \<Rightarrow> chunk list" where
  "fallback_loop clean book_name i cs count =
     (if i < length clean then
        (let chunk_text_content = slice i (i + CHUNK_SIZE) clean in
         if length chunk_text_content \<ge> MIN_CHUNK_SIZE
         then fallback_loop clean book_name (i + (CHUNK_SIZE - CHUNK_OVERLAP))
                (cs @ [fallback_chunk book_name chunk_text_content count]) (count + 1)
         else fallback_loop clean book_name (i + (CHUNK_SIZE - CHUNK_OVERLAP)) cs count)
      else cs)"
  by pat_completeness auto
termination
  by (relation "measure (\<lambda>(clean, book_name, i, cs, count). length clean - i)")
     (auto simp: CHUNK_SIZE_def CHUNK_OVERLAP_def)

declare fallback_loop.simps [simp del]

subsection \<open>chunk_text\<close>

definition chunk_text :: "string \<Rightarrow> string \<Rightarrow> chunk list" where
  "chunk_text text book_name =
     (let clean_text_content = clean_text text;
          cs = paragraph_pass clean_text_content book_name
      in if length cs < 5 \<and> length clean_text_content > CHUNK_SIZE * 2
         then fallback_loop clean_text_content book_name 0 [] 0
         else cs)"

subsection \<open>MD5 and generate_chunk_id\<close>

text \<open>
  \<^verbatim>\<open>content.encode()\<close>: UTF-8; a code point below U+0080 is one byte, the others of the range
  are two.
\<close>

definition utf8_char :: "char \<Rightarrow> nat list" where
  "utf8_char c = (let n = (of_char c :: nat) in
     if n < 128 then [n] else [192 + n div 64, 128 + n mod 64])"

definition encode :: "string \<Rightarrow> nat list" where
  "encode s = concat (map utf8_char s)"

text \<open>\<^verbatim>\<open>hashlib.md5(...).hexdigest()\<close>, after RFC 1321.\<close>

definition md5_s :: "nat list" where
  "md5_s = concat (map (\<lambda>r. concat (replicate 4 r))
     [[7, 12, 17, 22], [5, 9, 14, 20], [4, 11, 16, 23], [6, 10, 15, 21]])"

definition md5_K :: "32 word list" where
  "md5_K =
    [0xd76aa478, 0xe8c7b756, 0x242070db, 0xc1bdceee,
     0xf57c0faf, 0x4787c62a, 0xa8304613, 0xfd469501,
     0x698098d8, 0x8b44f7af, 0xffff5bb1, 0x895cd7be,
     0x6b901122, 0xfd987193, 0xa679438e, 0x49b40821,
     0xf61e2562, 0xc040b340, 0x265e5a51, 0xe9b6c7aa,
     0xd62f105d, 0x02441453, 0xd8a1e681, 0xe7d3fbc8,
     0x21e1cde6, 0xc33707d6, 0xf4d50d87, 0x455a14ed,
     0xa9e3e905, 0xfcefa3f8, 0x676f02d9, 0x8d2a4c8a,
     0xfffa3942, 0x8771f681, 0x6d9d6122, 0xfde5380c,
     0xa4beea44, 0x4bdecfa9, 0xf6bb4b60, 0xbebfbc70,
     0x289b7ec6, 0xeaa127fa, 0xd4ef3085, 0x04881d05,
     0xd9d4d039, 0xe6db99e5, 0x1fa27cf8, 0xc4ac5665,
     0xf4292244, 0x432aff97, 0xab9423a7, 0xfc93a039,
     0x655b59c3, 0x8f0ccc92, 0xffeff47d, 0x85845dd1,
     0x6fa87e4f, 0xfe2ce6e0, 0xa3014314, 0x4e0811a1,
     0xf7537e82, 0xbd3af235, 0x2ad7d2bb, 0xeb86d391]"

fun le_bytes :: "nat \<Rightarrow> nat \<Rightarrow> nat list" where
  "le_bytes 0 v = []"
| "le_bytes (Suc k) v = (v mod 256) # le_bytes k (v div 256)"

fun le_value :: "nat list \<Rightarrow> nat" where
  "le_value [] = 0"
| "le_value (b # bs) = b + 256 * le_value bs"

definition md5_pad :: "nat list \<Rightarrow> nat list" where
  "md5_pad bs =
     bs @ [128] @ replicate ((119 - length bs mod 64) mod 64) 0
        @ le_bytes 8 ((8 * length bs) mod 2 ^ 64)"

function chop :: "nat \<Rightarrow> 'a list \<Rightarrow> 'a list list" where
  "chop n xs = (if n = 0 \<or> xs = [] then [] else take n xs # chop n (drop n xs))"
  by pat_completeness auto
termination
  by (relation "measure (\<lambda>(n, xs). length xs)") auto

declare chop.simps [simp del]

type_synonym md5_state = "32 word \<times> 32 word \<times> 32 word \<times> 32 word"

definition md5_step :: "32 word list \<Rightarrow> md5_state \<Rightarrow> nat \<Rightarrow> md5_state" where
  "md5_step M st i =
     (case st of (A, B, C, D) \<Rightarrow>
        (let (F, g) =
               (if i < 16 then ((B AND C) OR (NOT B AND D), i)
                else if i < 32 then ((D AND B) OR (NOT D AND C), (5 * i + 1) mod 16)
                else if i < 48 then (B XOR C XOR D, (3 * i + 5) mod 16)
                else (C XOR (B OR NOT D), (7 * i) mod 16));
             F = F + A + md5_K ! i + M ! g
         in (D, B + word_rotl (md5_s ! i) F, B, C)))"

definition md5_block :: "md5_state \<Rightarrow> nat list \<Rightarrow> md5_state" where
  "md5_block st block =
     (let M = map (\<lambda>bs. of_nat (le_value bs)) (chop 4 block) in
      case st of (a0, b0, c0, d0) \<Rightarrow>
        (case foldl (md5_step M) st [0..<64] of (A, B, C, D) \<Rightarrow>
           (a0 + A, b0 + B, c0 + C, d0 + D)))"

definition hex_char :: "nat \<Rightarrow> char" where
  "hex_char d = (if d < 10 then char_of (48 + d) else char_of (87 + d))"

definition md5_hexdigest :: "nat list \<Rightarrow> string" where
  "md5_hexdigest bs =
     (case foldl md5_block (0x67452301, 0xefcdab89, 0x98badcfe, 0x10325476)
             (chop 64 (md5_pad bs)) of
        (a0, b0, c0, d0) \<Rightarrow>
          concat (map (\<lambda>b. [hex_char (b div 16), hex_char (b mod 16)])
            (concat (map (\<lambda>w. le_bytes 4 (unat w)) [a0, b0, c0, d0]))))"

text \<open>The string that is hashed: \<^verbatim>\<open>f"{book}_{chunk_id}_{text[:100]}"\<close>.\<close>

definition chunk_content :: "chunk \<Rightarrow> string" where
  "chunk_content c = cbook c @ ''_'' @ str_int (chunk_id c) @ ''_'' @ take 100 (ctext c)"

definition generate_chunk_id :: "chunk \<Rightarrow> string" where
  "generate_chunk_id c = md5_hexdigest (encode (chunk_content c))"

subsection \<open>Embedding and upsert\<close>

text \<open>
  The embeddings service and the vector index are outside the program. A call to one of
  them is a function of the state \<open>'w\<close> of the outside world that returns an error (the
  exception raised) or a value, together with the new state. \<open>'v\<close> is the type of an
  embedding vector; the program never looks into one.
\<close>

datatype error = Error string

record ('w, 'v) services =
  connect :: "'w \<Rightarrow> (error + unit) \<times> 'w"
  embed :: "'w \<Rightarrow> string \<Rightarrow> (error + 'v) \<times> 'w"
  upsert :: "'w \<Rightarrow> (string \<times> 'v \<times> chunk) list \<Rightarrow> (error + unit) \<times> 'w"
  describe_index_stats :: "'w \<Rightarrow> (error + nat) \<times> 'w"

text \<open>
  \<^verbatim>\<open>create_embedding\<close>: the whole body is inside \<^verbatim>\<open>try\<close>, and \<^verbatim>\<open>except Exception\<close> returns
  \<^verbatim>\<open>None\<close>.
\<close>

definition create_embedding :: "('w, 'v) services \<Rightarrow> 'w \<Rightarrow> string \<Rightarrow> 'v option \<times> 'w" where
  "create_embedding sv w text =
     (let estimated_tokens = length text div 4;
          max_tokens = 8000;
          text = (if estimated_tokens > max_tokens then take (max_tokens * 4) text else text)
      in case embed sv w text of
           (Inl e, w') \<Rightarrow> (None, w')
         | (Inr embedding, w') \<Rightarrow> (Some embedding, w'))"

text \<open>
  A vector for the index: its id, its values, and the metadata of the passage with the
  text cut to 1000 characters.
\<close>

definition make_vector :: "chunk \<Rightarrow> 'v \<Rightarrow> string \<times> 'v \<times> chunk" where
  "make_vector c embedding = (generate_chunk_id c, embedding, c\<lparr>ctext := take 1000 (ctext c)\<rparr>)"

text \<open>The inner loop \<^verbatim>\<open>for chunk in batch\<close>, with \<^verbatim>\<open>vectors\<close> as accumulator.\<close>

fun embed_batch ::
  "('w, 'v) services \<Rightarrow> 'w \<Rightarrow> chunk list \<Rightarrow> (string \<times> 'v \<times> chunk) list
     \<Rightarrow> (string \<times> 'v \<times> chunk) list \<times> 'w" where
  "embed_batch sv w [] vectors = (vectors, w)"
| "embed_batch sv w (c # batch) vectors =
     (case create_embedding sv w (ctext c) of
        (None, w') \<Rightarrow> embed_batch sv w' batch vectors
      | (Some embedding, w') \<Rightarrow> embed_batch sv w' batch (vectors @ [make_vector c embedding]))"

text \<open>The body of the outer loop for one batch: embed, then upsert if there is a vector.\<close>

definition process_batch :: "('w, 'v) services \<Rightarrow> 'w \<Rightarrow> chunk list \<Rightarrow> (error + unit) \<times> 'w" where
  "process_batch sv w batch =
     (case embed_batch sv w batch [] of
        (vectors, w') \<Rightarrow> if vectors \<noteq> [] then upsert sv w' vectors else (Inr (), w'))"

text \<open>The outer loop; an exception of the index leaves it.\<close>

fun process_batches :: "('w, 'v) services \<Rightarrow> 'w \<Rightarrow> chunk list list \<Rightarrow> (error + unit) \<times> 'w" where
  "process_batches sv w [] = (Inr (), w)"
| "process_batches sv w (batch # batches) =
     (case process_batch sv w batch of
        (Inl e, w') \<Rightarrow> (Inl e, w')
      | (Inr u, w') \<Rightarrow> process_batches sv w' batches)"

text \<open>\<^verbatim>\<open>upsert_to_pinecone\<close>: batches of 100; any exception makes the result \<^verbatim>\<open>False\<close>.\<close>

definition upsert_to_pinecone :: "('w, 'v) services \<Rightarrow> 'w \<Rightarrow> chunk list \<Rightarrow> bool \<times> 'w" where
  "upsert_to_pinecone sv w cs =
     (case connect sv w of
        (Inl e, w1) \<Rightarrow> (False, w1)
      | (Inr u, w1) \<Rightarrow>
          (case process_batches sv w1 (chop 100 cs) of
             (Inl e, w2) \<Rightarrow> (False, w2)
           | (Inr u, w2) \<Rightarrow>
               (case describe_index_stats sv w2 of
                  (Inl e, w3) \<Rightarrow> (False, w3)
                | (Inr n, w3) \<Rightarrow> (True, w3))))"

subsection \<open>Notions used in the statements\<close>

text \<open>
  The passages numbered so far are well numbered: the \<open>k\<close>-th has \<^verbatim>\<open>chunk_id\<close> \<open>k\<close>, and
  the counter is the number of passages.
\<close>

definition ids_ok :: "chunk list \<Rightarrow> int \<Rightarrow> bool" where
  "ids_ok cs count = (map chunk_id cs = map int [0..<length cs] \<and> count = int (length cs))"

text \<open>
  The windows of the fallback path: the \<open>k\<close>-th window starts at
  \<open>k * (CHUNK_SIZE - CHUNK_OVERLAP)\<close> and has up to \<open>CHUNK_SIZE\<close> characters;
  \<open>window_count\<close> is the number of starting points below the length of the text.
\<close>

definition window :: "string \<Rightarrow> nat \<Rightarrow> string" where
  "window clean k =
     slice (k * (CHUNK_SIZE - CHUNK_OVERLAP)) (k * (CHUNK_SIZE - CHUNK_OVERLAP) + CHUNK_SIZE) clean"

definition window_count :: "string \<Rightarrow> nat" where
  "window_count clean =
     (length clean + (CHUNK_SIZE - CHUNK_OVERLAP) - 1) div (CHUNK_SIZE - CHUNK_OVERLAP)"

text \<open>Fallback passages for a list of window texts, numbered from \<open>count\<close>.\<close>

fun number_chunks :: "string \<Rightarrow> int \<Rightarrow> string list \<Rightarrow> chunk list" where
  "number_chunks book_name count [] = []"
| "number_chunks book_name count (w # ws) =
     fallback_chunk book_name w count # number_chunks book_name (count + 1) ws"

text \<open>The number of windows that have at least \<open>MIN_CHUNK_SIZE\<close> characters.\<close>

definition kept_count :: "string \<Rightarrow> nat" where
  "kept_count clean =
     (if length clean < MIN_CHUNK_SIZE then 0
      else (length clean - MIN_CHUNK_SIZE) div (CHUNK_SIZE - CHUNK_OVERLAP) + 1)"

text \<open>A paragraph of forty words, used as a concrete accumulator.\<close>

definition sample_words :: "string list" where
  "sample_words =
    [''word1000'', ''word1001'', ''word1002'', ''word1003'', ''word1004'',
     ''word1005'', ''word1006'', ''word1007'', ''word1008'', ''word1009'',
     ''word1010'', ''word1011'', ''word1012'', ''word1013'', ''word1014'',
     ''word1015'', ''word1016'', ''word1017'', ''word1018'', ''word1019'',
     ''word1020'', ''word1021'', ''word1022'', ''word1023'', ''word1024'',
     ''word1025'', ''word1026'', ''word1027'', ''word1028'', ''word1029'',
     ''word1030'', ''word1031'', ''word1032'', ''word1033'', ''word1034'',
     ''word1035'', ''word1036'', ''word1037'', ''word1038'', ''word1039'']"

definition sample_paragraph :: string where
  "sample_paragraph = join '' '' sample_words"

text \<open>The number that a string of decimal digits denotes.\<close>

definition dec_value :: "string \<Rightarrow> nat" where
  "dec_value s = foldl (\<lambda>a c. 10 * a + ((of_char c :: nat) - 48)) 0 s"

text \<open>
  A concrete outside world: the state counts the calls, the embedding of a text is the
  text reversed, and the embedding of the text \<^verbatim>\<open>bad\<close> fails.
\<close>

definition sample_services :: "(nat, string) services" where
  "sample_services =
     \<lparr>connect = (\<lambda>w. (Inr (), w)),
      embed = (\<lambda>w t. (if t = ''bad'' then Inl (Error ''timeout'') else Inr (rev t), w + 1)),
      upsert = (\<lambda>w vs. (Inr (), w + 100)),
      describe_index_stats = (\<lambda>w. (Inr w, w))\<rparr>"

definition sample_chunk :: "string \<Rightarrow> int \<Rightarrow> chunk" where
  "sample_chunk t k =
     \<lparr>ctext = t, cbook = ''Prealgebra'', cchapter = ''Introduction'', csection = [], chunk_id = k\<rparr>"

section \<open>Properties\<close>

subsection \<open>The cleaned text has no line feed\<close>

lemma set_re_sub: "set (re_sub m repl s) \<subseteq> set s \<union> set repl"
proof (induction m repl s rule: re_sub.induct)
  case (1 m repl)
  then show ?case by simp
next
  case (2 m repl c cs)
  show ?case
  proof (cases "m (c # cs)")
    case None
    with 2 show ?thesis by auto
  next
    case (Some n)
    show ?thesis
    proof (cases "n = 0")
      case True
      with Some 2 show ?thesis by auto
    next
      case False
      have "set (drop n (c # cs)) \<subseteq> set (c # cs)" by (rule set_drop_subset)
      with False Some 2 show ?thesis by auto
    qed
  qed
qed

lemma re_sub_no_match:
  "(\<And>u. u \<noteq> [] \<Longrightarrow> set u \<subseteq> set s \<Longrightarrow> m u = None) \<Longrightarrow> re_sub m repl s = s"
proof (induction s)
  case Nil
  then show ?case by simp
next
  case (Cons c cs)
  have "m (c # cs) = None" using Cons.prems by simp
  moreover have "re_sub m repl cs = cs"
    using Cons.prems by (intro Cons.IH) auto
  ultimately show ?case by simp
qed

lemma is_space_newline: "is_space newline"
  by (simp add: is_space_def newline_def)

lemma re_sub_ws_chars: "c \<in> set (re_sub match_ws '' '' s) \<Longrightarrow> \<not> is_space c \<or> c = CHR '' ''"
proof (induction match_ws "'' ''" s rule: re_sub.induct)
  case 1
  then show ?case by simp
next
  case (2 d ds)
  show ?case
  proof (cases "match_ws (d # ds)")
    case None
    then have "\<not> is_space d"
      by (auto simp: match_ws_def Let_def split: if_splits)
    with None 2 show ?thesis by auto
  next
    case (Some n)
    then have "n \<noteq> 0" by (auto simp: match_ws_def Let_def split: if_splits)
    with Some 2 show ?thesis by auto
  qed
qed

lemma newline_not_space_char: "newline \<noteq> CHR '' ''"
  by (simp add: newline_def)

lemma no_newline_collapse: "newline \<notin> set (re_sub match_ws '' '' s)"
  using re_sub_ws_chars [of newline s] is_space_newline newline_not_space_char by blast

lemma page_number_needs_newline: "newline \<notin> set s \<Longrightarrow> re_sub match_page_number r s = s"
  by (rule re_sub_no_match) (auto simp: match_page_number_def split: list.splits)

lemma page_footer_needs_newline: "newline \<notin> set s \<Longrightarrow> re_sub match_page_footer r s = s"
  by (rule re_sub_no_match) (auto simp: match_page_footer_def split: list.splits)

lemma set_strip: "set (strip s) \<subseteq> set s"
proof -
  have "set (strip s) \<subseteq> set (dropWhile is_space s)"
    unfolding strip_def using set_dropWhileD by fastforce
  also have "\<dots> \<subseteq> set s" using set_dropWhileD by fastforce
  finally show ?thesis .
qed

lemma clean_text_no_newline: "newline \<notin> set (clean_text text)"
proof -
  define t1 where "t1 = re_sub match_ws '' '' text"
  define t5 where "t5 = re_sub match_email [] (re_sub match_url [] t1)"
  define t6 where "t6 = re_sub (match_class (\<lambda>c. c = CHR 0x22 \<or> c = CHR 0x22)) [CHR 0x22] t5"
  define t7 where "t7 = re_sub (match_class (\<lambda>c. c = CHR 0x60)) [CHR 0x27] t6"
  define t8 where "t8 = re_sub (match_class (\<lambda>c. (of_char c :: int) = 8212 \<or> (of_char c :: int) = 8211)) ''-'' t7"
  have n1: "newline \<notin> set t1" unfolding t1_def by (rule no_newline_collapse)
  have c: "clean_text text = strip t8"
    unfolding clean_text_def Let_def t8_def t7_def t6_def t5_def
    using page_number_needs_newline [OF n1] page_footer_needs_newline [OF n1]
    by (simp add: t1_def)
  have n5: "newline \<notin> set t5"
    using n1 set_re_sub [of match_email "[]" "re_sub match_url [] t1"] set_re_sub [of match_url "[]" t1]
    unfolding t5_def by auto
  have n6: "newline \<notin> set t6"
    using n5 set_re_sub [of _ "[CHR 0x22]" t5] unfolding t6_def by (auto simp: newline_def)
  have n7: "newline \<notin> set t7"
    using n6 set_re_sub [of _ "[CHR 0x27]" t6] unfolding t7_def by (auto simp: newline_def)
  have n8: "newline \<notin> set t8"
    using n7 set_re_sub [of _ "''-''" t7] unfolding t8_def by (auto simp: newline_def)
  show ?thesis using n8 set_strip [of t8] c by auto
qed

lemma split_paragraphs_no_newline: "newline \<notin> set s \<Longrightarrow> split_paragraphs s = [s]"
  by (induction s rule: split_paragraphs.induct) auto

subsection \<open>strip\<close>

lemma dropWhile_rev_last: "s \<noteq> [] \<Longrightarrow> \<not> P (last s) \<Longrightarrow> dropWhile P (rev s) = rev s"
  by (induction s rule: rev_induct) auto

lemma strip_id: "s = [] \<or> (\<not> is_space (hd s) \<and> \<not> is_space (last s)) \<Longrightarrow> strip s = s"
proof (cases s)
  case Nil
  then show ?thesis by (simp add: strip_def)
next
  case (Cons c cs)
  assume "s = [] \<or> (\<not> is_space (hd s) \<and> \<not> is_space (last s))"
  with Cons have h: "\<not> is_space c" and l: "\<not> is_space (last s)" by auto
  from h Cons have d: "dropWhile is_space s = s" by simp
  have "dropWhile is_space (rev s) = rev s"
    using Cons l by (intro dropWhile_rev_last) auto
  with d show ?thesis by (simp add: strip_def)
qed

lemma strip_ends: "strip s = [] \<or> (\<not> is_space (hd (strip s)) \<and> \<not> is_space (last (strip s)))"
proof (cases "strip s = []")
  case True
  then show ?thesis by simp
next
  case False
  define u where "u = dropWhile is_space s"
  define v where "v = dropWhile is_space (rev u)"
  have sv: "strip s = rev v" by (simp add: strip_def u_def v_def)
  with False have vne: "v \<noteq> []" by simp
  then have hv: "\<not> is_space (hd v)" unfolding v_def by (rule hd_dropWhile)
  have l: "last (strip s) = hd v" using vne sv by (simp add: last_rev)
  obtain p where p: "rev u = p @ v"
    unfolding v_def by (metis takeWhile_dropWhile_id)
  then have "u = rev v @ rev p" by (metis rev_append rev_rev_ident)
  then have "hd u = hd (rev v)" using vne by simp
  moreover have "u \<noteq> []" using p vne by auto
  then have "\<not> is_space (hd u)" unfolding u_def by (rule hd_dropWhile)
  ultimately show ?thesis using hv l sv by simp
qed

lemma strip_idem: "strip (strip s) = strip s"
  using strip_ends [of s] by (rule strip_id)

lemma strip_append_newlines:
  assumes "s \<noteq> []" "strip s = s"
  shows "strip (s @ [newline, newline]) = s"
proof -
  from strip_ends [of s] assms have h: "\<not> is_space (hd s)" and l: "\<not> is_space (last s)"
    by auto
  from assms(1) h have d: "dropWhile is_space (s @ [newline, newline]) = s @ [newline, newline]"
    by (cases s) auto
  have "dropWhile is_space (rev s) = rev s"
    using assms(1) l by (rule dropWhile_rev_last)
  then have "dropWhile is_space (rev (s @ [newline, newline])) = rev s"
    by (simp add: is_space_newline)
  with d show ?thesis by (simp add: strip_def)
qed

lemma strip_clean_text: "strip (clean_text text) = clean_text text"
  by (simp add: clean_text_def Let_def strip_idem)

subsection \<open>The paragraph path on a cleaned text\<close>

text \<open>
  A text without a line feed is one paragraph, so the loop runs once on an empty
  accumulator: neither mid-loop flush can fire, and the only passage the paragraph path can
  emit is the whole text, in the flush after the loop.
\<close>

lemma paragraph_pass_single:
  assumes "newline \<notin> set c" "strip c = c"
  shows "paragraph_pass c b =
           (if c \<noteq> [] \<and> \<not> is_heading c \<and> MIN_CHUNK_SIZE \<le> length c
            then [\<lparr>ctext = c, cbook = b, cchapter = ''Introduction'', csection = [], chunk_id = 0\<rparr>]
            else [])"
proof -
  have sp: "split_paragraphs c = [c]"
    using assms(1) by (rule split_paragraphs_no_newline)
  have m: "\<not> MIN_CHUNK_SIZE \<le> 0" by (simp add: MIN_CHUNK_SIZE_def)
  show ?thesis
  proof (cases "c = []")
    case True
    then show ?thesis
      using m by (simp add: paragraph_pass_def para_step_def final_flush_def init_state_def strip_def)
  next
    case False
    note ne = this
    show ?thesis
    proof (cases "is_heading c")
      case True
      then show ?thesis
        using ne assms(2) m
        by (simp add: paragraph_pass_def sp para_step_def final_flush_def init_state_def Let_def strip_def)
    next
      case False
      have st: "strip (c @ [newline, newline]) = c"
        using ne assms(2) by (rule strip_append_newlines)
      have ps: "para_step b init_state c = init_state\<lparr>current_chunk := c @ [newline, newline]\<rparr>"
        using False ne assms(2) m by (simp add: para_step_def init_state_def Let_def)
      have "paragraph_pass c b = final_flush b (init_state\<lparr>current_chunk := c @ [newline, newline]\<rparr>)"
        by (simp add: paragraph_pass_def sp ps)
      then show ?thesis
        using False ne
        by (simp add: final_flush_def st flushed_def init_state_def)
    qed
  qed
qed

lemma paragraph_pass_clean_text:
  "paragraph_pass (clean_text text) b =
     (if clean_text text \<noteq> [] \<and> \<not> is_heading (clean_text text)
         \<and> MIN_CHUNK_SIZE \<le> length (clean_text text)
      then [\<lparr>ctext = clean_text text, cbook = b, cchapter = ''Introduction'', csection = [],
             chunk_id = 0\<rparr>]
      else [])"
  using clean_text_no_newline strip_clean_text by (rule paragraph_pass_single)


lemma re_sub_ws_all_space:
  assumes "list_all is_space s" "s \<noteq> []"
  shows "re_sub match_ws '' '' s = '' ''"
proof -
  obtain c cs where s: "s = c # cs" using assms(2) by (cases s) auto
  have tw: "takeWhile is_space s = s"
    using assms(1) by (simp add: list_all_iff)
  have "match_ws s = Some (length s)"
    unfolding match_ws_def Let_def tw using assms(2) by simp
  then show ?thesis using s by simp
qed

lemma clean_text_one_space: "clean_text '' '' = []"
  by code_simp

lemma clean_text_all_space: "list_all is_space s \<Longrightarrow> clean_text s = []"
proof (cases "s = []")
  case True
  then show ?thesis by (simp add: clean_text_def strip_def)
next
  case False
  assume "list_all is_space s"
  then have a: "re_sub match_ws '' '' s = '' ''"
    using False by (rule re_sub_ws_all_space)
  have b: "re_sub match_ws '' '' '' '' = '' ''"
    by code_simp
  have "clean_text s = clean_text '' ''"
    unfolding clean_text_def a b ..
  then show ?thesis by (simp add: clean_text_one_space)
qed

section \<open>The claims\<close>

text \<open>
  C1. The claim: clean_text keeps the double line feeds between paragraphs, so that the
  split on two line feeds in chunk_text recovers the paragraphs. The code collapses every
  run of white space, line feeds included, to one space in its first substitution. At the
  two-paragraph text below the cleaned text is one line and the split yields one piece.
\<close>

theorem clean_text_merges_paragraphs:
  "clean_text ''First paragraph.\<newline>\<newline>Second paragraph.''
     = ''First paragraph. Second paragraph.''
   \<and> split_paragraphs (clean_text ''First paragraph.\<newline>\<newline>Second paragraph.'')
     = [''First paragraph. Second paragraph.'']"
  by code_simp

text \<open>
  C8. The claim: the cleaned text has no bare page-number line and no \<^verbatim>\<open>Page N\<close> footer
  line. Both patterns need line feeds around the number, and the first substitution has
  already turned every line feed into a space: the page number 12 and the footer
  \<^verbatim>\<open>Page 3\<close> below stay in the cleaned text.
\<close>

theorem clean_text_keeps_page_numbers:
  "clean_text ''Intro\<newline>12\<newline>Text\<newline>Page 3\<newline>more''
     = ''Intro 12 Text Page 3 more''"
  by code_simp

text \<open>
  C10. If the cleaned text is empty then chunk_text returns the empty list; the cleaned
  form of a text of white space only (the empty text included) is empty.
\<close>

theorem chunk_text_empty:
  "(clean_text text = [] \<longrightarrow> chunk_text text book_name = [])
   \<and> (list_all is_space text \<longrightarrow> clean_text text = [])"
proof (intro conjI impI)
  assume e: "clean_text text = []"
  have "paragraph_pass (clean_text text) book_name = []"
    unfolding paragraph_pass_clean_text using e by simp
  then show "chunk_text text book_name = []"
    using e by (simp add: chunk_text_def Let_def CHUNK_SIZE_def)
next
  assume "list_all is_space text"
  then show "clean_text text = []" by (rule clean_text_all_space)
qed

theorem chunk_text_empty_witness:
  "list_all is_space [CHR '' '', newline, CHR 0x09]
   \<and> clean_text [CHR '' '', newline, CHR 0x09] = []
   \<and> chunk_text [CHR '' '', newline, CHR 0x09] ''Prealgebra'' = []"
proof -
  have a: "list_all is_space [CHR '' '', newline, CHR 0x09]"
    by (simp add: is_space_def newline_def)
  from chunk_text_empty [of "[CHR '' '', newline, CHR 0x09]" "''Prealgebra''"] a
  show ?thesis by blast
qed

subsection \<open>Numbering of the passages\<close>

lemma ids_ok_append:
  "ids_ok cs count \<Longrightarrow> chunk_id c = count \<Longrightarrow> ids_ok (cs @ [c]) (count + 1)"
  by (simp add: ids_ok_def)

lemma para_step_ids:
  assumes "ids_ok (chunks s) (chunk_count s)"
  shows "ids_ok (chunks (para_step b s p)) (chunk_count (para_step b s p))"
proof -
  have f: "ids_ok (chunks s @ [flushed b s]) (chunk_count s + 1)"
    using assms by (rule ids_ok_append) (simp add: flushed_def)
  show ?thesis
    using assms f by (simp add: para_step_def Let_def)
qed

lemma para_loop_ids:
  "ids_ok (chunks s) (chunk_count s) \<Longrightarrow>
   ids_ok (chunks (foldl (para_step b) s ps)) (chunk_count (foldl (para_step b) s ps))"
  by (induction ps arbitrary: s) (simp_all add: para_step_ids)

lemma paragraph_pass_ids:
  "map chunk_id (paragraph_pass c b) = map int [0..<length (paragraph_pass c b)]"
proof -
  define s where "s = foldl (para_step b) init_state (split_paragraphs c)"
  have "ids_ok (chunks init_state) (chunk_count init_state)"
    by (simp add: ids_ok_def init_state_def)
  then have i: "ids_ok (chunks s) (chunk_count s)"
    unfolding s_def by (rule para_loop_ids)
  then have "ids_ok (chunks s @ [flushed b s]) (chunk_count s + 1)"
    by (rule ids_ok_append) (simp add: flushed_def)
  with i show ?thesis
    by (simp add: paragraph_pass_def s_def [symmetric] final_flush_def ids_ok_def)
qed

lemma fallback_loop_ids:
  "ids_ok cs count \<Longrightarrow>
   map chunk_id (fallback_loop clean b i cs count)
     = map int [0..<length (fallback_loop clean b i cs count)]"
proof (induction clean b i cs count rule: fallback_loop.induct)
  case (1 clean b i cs count)
  show ?case
  proof (cases "i < length clean")
    case False
    then have "fallback_loop clean b i cs count = cs"
      by (subst fallback_loop.simps) simp
    then show ?thesis using "1.prems" by (simp add: ids_ok_def)
  next
    case True
    define w where "w = slice i (i + CHUNK_SIZE) clean"
    show ?thesis
    proof (cases "MIN_CHUNK_SIZE \<le> length w")
      case True
      have "ids_ok (cs @ [fallback_chunk b w count]) (count + 1)"
        using "1.prems" by (rule ids_ok_append) (simp add: fallback_chunk_def)
      then have "map chunk_id (fallback_loop clean b (i + (CHUNK_SIZE - CHUNK_OVERLAP))
                   (cs @ [fallback_chunk b w count]) (count + 1))
               = map int [0..<length (fallback_loop clean b (i + (CHUNK_SIZE - CHUNK_OVERLAP))
                   (cs @ [fallback_chunk b w count]) (count + 1))]"
        using "1.IH"(1) [OF \<open>i < length clean\<close> w_def True]
        by simp
      then show ?thesis
        using \<open>i < length clean\<close> True
        by (subst (1 2) fallback_loop.simps) (simp add: w_def Let_def)
    next
      case False
      have "map chunk_id (fallback_loop clean b (i + (CHUNK_SIZE - CHUNK_OVERLAP)) cs count)
               = map int [0..<length (fallback_loop clean b (i + (CHUNK_SIZE - CHUNK_OVERLAP)) cs count)]"
        using "1.IH"(2) [OF \<open>i < length clean\<close> w_def False] "1.prems" by simp
      then show ?thesis
        using \<open>i < length clean\<close> False
        by (subst (1 2) fallback_loop.simps) (simp add: w_def Let_def)
    qed
  qed
qed

text \<open>
  C6. The \<open>k\<close>-th passage (from 0) of the list returned by chunk_text has \<^verbatim>\<open>chunk_id\<close>
  \<open>k\<close>, on the paragraph path and on the fallback path.
\<close>

theorem chunk_text_ids:
  "map chunk_id (chunk_text text book_name) = map int [0..<length (chunk_text text book_name)]"
proof -
  have "ids_ok [] 0" by (simp add: ids_ok_def)
  then have "map chunk_id (fallback_loop (clean_text text) book_name 0 [] 0)
     = map int [0..<length (fallback_loop (clean_text text) book_name 0 [] 0)]"
    by (rule fallback_loop_ids)
  then show ?thesis
    using paragraph_pass_ids [of "clean_text text" book_name]
    by (simp add: chunk_text_def Let_def)
qed

subsection \<open>The fallback windows\<close>

lemma map_ctext_number_chunks: "map ctext (number_chunks b count ws) = ws"
  by (induction ws arbitrary: count) (simp_all add: fallback_chunk_def)

lemma window_index: "(k * (CHUNK_SIZE - CHUNK_OVERLAP) < length clean) = (k < window_count clean)"
proof -
  have "(k < (length clean + 799) div 800) = (Suc k \<le> (length clean + 799) div 800)"
    by auto
  also have "\<dots> = (Suc k * 800 \<le> length clean + 799)"
    by (simp only: less_eq_div_iff_mult_less_eq [of 800, simplified])
  also have "\<dots> = (k * 800 < length clean)"
    by auto
  finally show ?thesis
    by (simp add: window_count_def CHUNK_SIZE_def CHUNK_OVERLAP_def add.commute)
qed

lemma fallback_loop_windows:
  "fallback_loop clean b (k * (CHUNK_SIZE - CHUNK_OVERLAP)) cs count
     = cs @ number_chunks b count
              (filter (\<lambda>w. MIN_CHUNK_SIZE \<le> length w)
                 (map (window clean) [k..<window_count clean]))"
proof (induction "window_count clean - k" arbitrary: k cs count)
  case 0
  then have "\<not> k * (CHUNK_SIZE - CHUNK_OVERLAP) < length clean"
    by (simp add: window_index)
  then have "fallback_loop clean b (k * (CHUNK_SIZE - CHUNK_OVERLAP)) cs count = cs"
    by (subst fallback_loop.simps) simp
  then show ?case using 0 by simp
next
  case (Suc n)
  then have lt: "k < window_count clean" by simp
  then have i: "k * (CHUNK_SIZE - CHUNK_OVERLAP) < length clean"
    by (simp add: window_index)
  have up: "[k..<window_count clean] = k # [Suc k..<window_count clean]"
    using lt by (rule upt_conv_Cons)
  have nx: "k * (CHUNK_SIZE - CHUNK_OVERLAP) + (CHUNK_SIZE - CHUNK_OVERLAP)
              = Suc k * (CHUNK_SIZE - CHUNK_OVERLAP)"
    by simp
  have ih: "\<And>cs count. fallback_loop clean b (Suc k * (CHUNK_SIZE - CHUNK_OVERLAP)) cs count
     = cs @ number_chunks b count
              (filter (\<lambda>w. MIN_CHUNK_SIZE \<le> length w)
                 (map (window clean) [Suc k..<window_count clean]))"
    using Suc.hyps(2) by (intro Suc.hyps(1)) simp
  show ?case
    using i
    by (subst fallback_loop.simps) (simp only: nx ih up, simp add: window_def Let_def)
qed

lemma fallback_loop_closed:
  "fallback_loop clean b 0 [] 0
     = number_chunks b 0
         (filter (\<lambda>w. MIN_CHUNK_SIZE \<le> length w) (map (window clean) [0..<window_count clean]))"
  using fallback_loop_windows [of clean b 0 "[]" 0] by simp

lemma length_window:
  "length (window clean k) = min CHUNK_SIZE (length clean - k * (CHUNK_SIZE - CHUNK_OVERLAP))"
  by (simp add: window_def slice_def min_def)

lemma kept_index: "(k < kept_count clean) = (k * 800 + 300 \<le> length clean)"
proof (cases "length clean < 300")
  case True
  then show ?thesis by (simp add: kept_count_def MIN_CHUNK_SIZE_def)
next
  case False
  have "(k < (length clean - 300) div 800 + 1) = (k \<le> (length clean - 300) div 800)"
    by auto
  also have "\<dots> = (k * 800 \<le> length clean - 300)"
    by (simp only: less_eq_div_iff_mult_less_eq [of 800, simplified])
  also have "\<dots> = (k * 800 + 300 \<le> length clean)"
    using False by auto
  finally show ?thesis
    using False by (simp add: kept_count_def MIN_CHUNK_SIZE_def CHUNK_SIZE_def CHUNK_OVERLAP_def)
qed

lemma window_kept: "(MIN_CHUNK_SIZE \<le> length (window clean k)) = (k < kept_count clean)"
  unfolding kept_index length_window
  by (auto simp: CHUNK_SIZE_def CHUNK_OVERLAP_def MIN_CHUNK_SIZE_def)

lemma kept_le_count: "kept_count clean \<le> window_count clean"
proof -
  have "k < window_count clean" if "k < kept_count clean" for k
    using that unfolding kept_index window_index [symmetric]
    by (simp add: CHUNK_SIZE_def CHUNK_OVERLAP_def)
  then show ?thesis by (meson linorder_not_less order_less_irrefl)
qed

lemma window_full: "Suc k < kept_count clean \<Longrightarrow> length (window clean k) = CHUNK_SIZE"
  unfolding kept_index length_window
  by (simp add: CHUNK_SIZE_def CHUNK_OVERLAP_def)

lemma kept_windows:
  "filter (\<lambda>w. MIN_CHUNK_SIZE \<le> length w) (map (window clean) [0..<window_count clean])
     = map (window clean) [0..<kept_count clean]"
proof -
  have "[0..<window_count clean] = [0..<kept_count clean] @ [kept_count clean..<window_count clean]"
    using kept_le_count [of clean] by (metis le0 upt_add_eq_append le_Suc_ex)
  moreover have "filter (\<lambda>k. k < kept_count clean) [0..<kept_count clean] = [0..<kept_count clean]"
    by (rule filter_True) simp
  moreover have "filter (\<lambda>k. k < kept_count clean) [kept_count clean..<window_count clean] = []"
    by (rule filter_False) simp
  ultimately have "filter (\<lambda>k. k < kept_count clean) [0..<window_count clean] = [0..<kept_count clean]"
    by (metis append_Nil2 filter_append)
  then show ?thesis
    by (simp add: filter_map comp_def window_kept)
qed

lemma kept_windows_full:
  "list_all (\<lambda>w. length w = CHUNK_SIZE) (butlast (map (window clean) [0..<kept_count clean]))"
proof -
  have "butlast (map (window clean) [0..<kept_count clean]) = map (window clean) [0..<kept_count clean - 1]"
    by (cases "kept_count clean") (simp_all add: map_butlast [symmetric])
  moreover have "list_all (\<lambda>w. length w = CHUNK_SIZE) (map (window clean) [0..<kept_count clean - 1])"
    by (auto simp: list_all_iff intro!: window_full)
  ultimately show ?thesis by simp
qed

lemma length_paragraph_pass_clean_text: "length (paragraph_pass (clean_text text) b) \<le> 1"
  unfolding paragraph_pass_clean_text by simp

lemma tl_butlast_subset: "set (butlast (tl u)) \<subseteq> set u"
  by (metis in_set_butlastD list.set_sel(2) subsetI butlast.simps(1) empty_iff empty_set tl_Nil)

lemma clean_text_letters:
  "clean_text (replicate n (CHR ''a'')) = replicate n (CHR ''a'')"
proof -
  define s where "s = replicate n (CHR ''a'')"
  have hd_a: "\<exists>cs. u = CHR ''a'' # cs" if "u \<noteq> []" "set u \<subseteq> set s" for u
    using that by (cases u) (auto simp: s_def)
  have all_a: "c = CHR ''a''" if "c \<in> set u" "set u \<subseteq> set s" for c u
    using that by (auto simp: s_def)
  have 1: "re_sub match_ws r s = s" for r
  proof (rule re_sub_no_match)
    fix u assume "u \<noteq> []" "set u \<subseteq> set s"
    then obtain cs where "u = CHR ''a'' # cs" using hd_a by blast
    then show "match_ws u = None" by (simp add: match_ws_def is_space_def)
  qed
  have 2: "re_sub match_page_number r s = s" for r
  proof (rule re_sub_no_match)
    fix u assume "u \<noteq> []" "set u \<subseteq> set s"
    then obtain cs where "u = CHR ''a'' # cs" using hd_a by blast
    then show "match_page_number u = None" by (simp add: match_page_number_def newline_def)
  qed
  have 3: "re_sub match_page_footer r s = s" for r
  proof (rule re_sub_no_match)
    fix u assume "u \<noteq> []" "set u \<subseteq> set s"
    then obtain cs where "u = CHR ''a'' # cs" using hd_a by blast
    then show "match_page_footer u = None" by (simp add: match_page_footer_def newline_def)
  qed
  have 4: "re_sub match_url r s = s" for r
  proof (rule re_sub_no_match)
    fix u assume "u \<noteq> []" "set u \<subseteq> set s"
    then obtain cs where "u = CHR ''a'' # cs" using hd_a by blast
    then show "match_url u = None" by (simp add: match_url_def)
  qed
  have 5: "re_sub match_email r s = s" for r
  proof (rule re_sub_no_match)
    fix u assume u: "u \<noteq> []" "set u \<subseteq> set s"
    define tok where "tok = takeWhile (\<lambda>c. \<not> is_space c) u"
    have "set (butlast (tl tok)) \<subseteq> set u"
      using tl_butlast_subset [of tok] set_takeWhileD [of _ "\<lambda>c. \<not> is_space c" u]
      unfolding tok_def by blast
    then have "\<not> list_ex (\<lambda>c. c = CHR ''@'') (butlast (tl tok))"
      using all_a [OF _ u(2)] by (fastforce simp: list_ex_iff)
    then show "match_email u = None" by (simp add: match_email_def tok_def)
  qed
  have 6: "re_sub (match_class P) r s = s" if "\<not> P (CHR ''a'')" for P r
  proof (rule re_sub_no_match)
    fix u assume "u \<noteq> []" "set u \<subseteq> set s"
    then obtain cs where "u = CHR ''a'' # cs" using hd_a by blast
    then show "match_class P u = None" using that by (simp add: match_class_def)
  qed
  have 7: "strip s = s"
  proof (rule strip_id)
    show "s = [] \<or> (\<not> is_space (hd s) \<and> \<not> is_space (last s))"
      by (cases n) (simp_all add: s_def is_space_def)
  qed
  show ?thesis
    unfolding s_def [symmetric] clean_text_def Let_def
    by (simp add: 1 2 3 4 5 6 7)
qed

text \<open>
  C2. chunk_text takes the fallback path exactly when the paragraph path gave fewer than 5
  passages and the cleaned text has more than \<open>2 * CHUNK_SIZE\<close> characters. Then the
  result holds no passage of the paragraph path: its texts are the windows
  \<^verbatim>\<open>clean[i : i + CHUNK_SIZE]\<close> for \<open>i = 0, CHUNK_SIZE - CHUNK_OVERLAP, ...\<close> below the
  length, without those shorter than \<open>MIN_CHUNK_SIZE\<close>, and each of them but the last has
  exactly \<open>CHUNK_SIZE\<close> characters. Otherwise the result is that of the paragraph path.
\<close>

theorem chunk_text_fallback:
  "(length (paragraph_pass (clean_text text) book_name) < 5 \<and> length (clean_text text) > 2 * CHUNK_SIZE
      \<longrightarrow> map ctext (chunk_text text book_name)
            = filter (\<lambda>w. MIN_CHUNK_SIZE \<le> length w)
                (map (window (clean_text text)) [0..<window_count (clean_text text)])
          \<and> list_all (\<lambda>w. length w = CHUNK_SIZE) (butlast (map ctext (chunk_text text book_name))))
   \<and> (\<not> (length (paragraph_pass (clean_text text) book_name) < 5
           \<and> length (clean_text text) > 2 * CHUNK_SIZE)
      \<longrightarrow> chunk_text text book_name = paragraph_pass (clean_text text) book_name)"
proof (intro conjI impI)
  assume f: "length (paragraph_pass (clean_text text) book_name) < 5
               \<and> length (clean_text text) > 2 * CHUNK_SIZE"
  then have "chunk_text text book_name = fallback_loop (clean_text text) book_name 0 [] 0"
    by (simp add: chunk_text_def Let_def mult.commute)
  then show m: "map ctext (chunk_text text book_name)
            = filter (\<lambda>w. MIN_CHUNK_SIZE \<le> length w)
                (map (window (clean_text text)) [0..<window_count (clean_text text)])"
    by (simp only: fallback_loop_closed map_ctext_number_chunks)
  show "list_all (\<lambda>w. length w = CHUNK_SIZE) (butlast (map ctext (chunk_text text book_name)))"
    unfolding m kept_windows by (rule kept_windows_full)
next
  assume "\<not> (length (paragraph_pass (clean_text text) book_name) < 5
           \<and> length (clean_text text) > 2 * CHUNK_SIZE)"
  then show "chunk_text text book_name = paragraph_pass (clean_text text) book_name"
    by (auto simp: chunk_text_def Let_def mult.commute)
qed

theorem chunk_text_fallback_witness:
  "length (paragraph_pass (clean_text (replicate 2500 (CHR ''a''))) ''Prealgebra'') < 5
   \<and> length (clean_text (replicate 2500 (CHR ''a''))) > 2 * CHUNK_SIZE
   \<and> map ctext (chunk_text (replicate 2500 (CHR ''a'')) ''Prealgebra'')
       = [replicate 1000 (CHR ''a''), replicate 1000 (CHR ''a''), replicate 900 (CHR ''a'')]
   \<and> \<not> (length (paragraph_pass (clean_text ''abc'') ''Prealgebra'') < 5
          \<and> length (clean_text ''abc'') > 2 * CHUNK_SIZE)
   \<and> chunk_text ''abc'' ''Prealgebra'' = paragraph_pass (clean_text ''abc'') ''Prealgebra''"
proof -
  have c: "clean_text (replicate 2500 (CHR ''a'')) = replicate 2500 (CHR ''a'')"
    by (rule clean_text_letters)
  have f: "length (paragraph_pass (clean_text (replicate 2500 (CHR ''a''))) ''Prealgebra'') < 5
           \<and> length (clean_text (replicate 2500 (CHR ''a''))) > 2 * CHUNK_SIZE"
    using length_paragraph_pass_clean_text [of "replicate 2500 (CHR ''a'')" "''Prealgebra''"]
    by (simp add: c CHUNK_SIZE_def)
  have wc: "window_count (replicate 2500 (CHR ''a'')) = 4"
    by (simp add: window_count_def CHUNK_SIZE_def CHUNK_OVERLAP_def)
  have up: "[0..<4] = [0, 1, 2, 3::nat]"
    by code_simp
  have win: "window (replicate 2500 (CHR ''a'')) k = replicate (min 1000 (2500 - k * 800)) (CHR ''a'')" for k
    by (simp add: window_def slice_def CHUNK_SIZE_def CHUNK_OVERLAP_def)
  have ev: "filter (\<lambda>w. MIN_CHUNK_SIZE \<le> length w)
              (map (window (replicate 2500 (CHR ''a'')))
                 [0..<window_count (replicate 2500 (CHR ''a''))])
            = [replicate 1000 (CHR ''a''), replicate 1000 (CHR ''a''), replicate 900 (CHR ''a'')]"
    by (simp add: wc up win MIN_CHUNK_SIZE_def)
  have abc: "clean_text ''abc'' = ''abc''"
    by code_simp
  have g: "\<not> (length (paragraph_pass (clean_text ''abc'') ''Prealgebra'') < 5
          \<and> length (clean_text ''abc'') > 2 * CHUNK_SIZE)"
    by (simp add: abc CHUNK_SIZE_def)
  from chunk_text_fallback [of "replicate 2500 (CHR ''a'')" "''Prealgebra''"]
       chunk_text_fallback [of "''abc''" "''Prealgebra''"] f g
  show ?thesis by (simp add: c ev)
qed

subsection \<open>Sizes on the paragraph path\<close>

lemma not_heading_long: "100 \<le> length p \<Longrightarrow> \<not> is_heading p"
  by (simp add: is_heading_def)

lemma chunk_text_letters:
  assumes "MIN_CHUNK_SIZE \<le> n" "n \<le> 2 * CHUNK_SIZE"
  shows "chunk_text (replicate n (CHR ''a'')) b =
           [\<lparr>ctext = replicate n (CHR ''a''), cbook = b, cchapter = ''Introduction'',
             csection = [], chunk_id = 0\<rparr>]"
proof -
  have c: "clean_text (replicate n (CHR ''a'')) = replicate n (CHR ''a'')"
    by (rule clean_text_letters)
  have h: "\<not> is_heading (replicate n (CHR ''a''))"
    using assms(1) by (intro not_heading_long) (simp add: MIN_CHUNK_SIZE_def)
  have ne: "replicate n (CHR ''a'') \<noteq> []"
    using assms(1) by (auto simp: MIN_CHUNK_SIZE_def)
  have "paragraph_pass (clean_text (replicate n (CHR ''a''))) b =
           [\<lparr>ctext = replicate n (CHR ''a''), cbook = b, cchapter = ''Introduction'',
             csection = [], chunk_id = 0\<rparr>]"
    using paragraph_pass_clean_text [of "replicate n (CHR ''a'')" b] h ne assms(1)
    by (simp add: c)
  then show ?thesis
    using assms(2) by (simp add: chunk_text_def Let_def c mult.commute)
qed

text \<open>
  The flush after the loop tests the stripped accumulator, so the passage it adds has at
  least \<open>MIN_CHUNK_SIZE\<close> characters.
\<close>

lemma final_flush_min_size:
  "final_flush b s = chunks s @ [c] \<Longrightarrow> MIN_CHUNK_SIZE \<le> length (ctext c)"
  by (auto simp: final_flush_def flushed_def split: if_splits)


subsection \<open>The steps of the paragraph loop\<close>

lemma contains_iff: "contains sub s = (\<exists>a b. s = a @ sub @ b)"
proof (induction s)
  case Nil
  then show ?case by auto
next
  case (Cons c cs)
  show ?case
  proof
    assume "contains sub (c # cs)"
    then consider "prefix sub (c # cs)" | "contains sub cs" by auto
    then show "\<exists>a b. c # cs = a @ sub @ b"
    proof cases
      case 1
      then obtain b where "c # cs = sub @ b" by (auto simp: prefix_def)
      then have "c # cs = [] @ sub @ b" by simp
      then show ?thesis by blast
    next
      case 2
      then obtain a b where "cs = a @ sub @ b" using Cons.IH by blast
      then have "c # cs = (c # a) @ sub @ b" by simp
      then show ?thesis by blast
    qed
  next
    assume "\<exists>a b. c # cs = a @ sub @ b"
    then obtain a b where ab: "c # cs = a @ sub @ b" by blast
    show "contains sub (c # cs)"
    proof (cases a)
      case Nil
      then have "prefix sub (c # cs)" using ab by (simp add: prefix_def)
      then show ?thesis by simp
    next
      case (Cons d a')
      then have "cs = a' @ sub @ b" using ab by simp
      then have "contains sub cs" using Cons.IH by blast
      then show ?thesis by simp
    qed
  qed
qed

lemma not_digit_dot: "\<not> is_digit (CHR ''.'')"
  by (simp add: is_digit_def)

lemma match_number_dot_iff:
  "match_number_dot p = (\<exists>ds r. ds \<noteq> [] \<and> list_all is_digit ds \<and> p = ds @ ''.'' @ r)"
proof
  assume m: "match_number_dot p"
  define ds where "ds = takeWhile is_digit p"
  from m obtain r where "dropWhile is_digit p = ''.'' @ r"
    by (auto simp: match_number_dot_def prefix_def)
  then have "p = ds @ ''.'' @ r"
    unfolding ds_def by (metis takeWhile_dropWhile_id)
  moreover have "list_all is_digit ds"
    unfolding ds_def list_all_iff using set_takeWhileD by fastforce
  moreover have "ds \<noteq> []" using m by (simp add: match_number_dot_def ds_def)
  ultimately show "\<exists>ds r. ds \<noteq> [] \<and> list_all is_digit ds \<and> p = ds @ ''.'' @ r"
    by blast
next
  assume "\<exists>ds r. ds \<noteq> [] \<and> list_all is_digit ds \<and> p = ds @ ''.'' @ r"
  then obtain ds r where d: "ds \<noteq> []" "list_all is_digit ds" "p = ds @ ''.'' @ r"
    by blast
  have "takeWhile is_digit p = ds"
    using d(2,3) not_digit_dot by (simp add: list_all_iff takeWhile_append2)
  moreover have "dropWhile is_digit p = ''.'' @ r"
    using d(2,3) not_digit_dot by (simp add: list_all_iff dropWhile_append2)
  ultimately show "match_number_dot p"
    using d(1) by (simp add: match_number_dot_def)
qed

text \<open>
  C4. A stripped paragraph \<open>p\<close> is a heading exactly when it has fewer than 100
  characters and its lower-cased form contains \<^verbatim>\<open>chapter\<close> or \<^verbatim>\<open>section\<close>, or it is upper-case
  in the sense of \<^verbatim>\<open>str.isupper\<close> (no lower-case character and at least one upper-case one),
  or it starts with one or more digits followed by a dot. On a heading the step adds at
  most the passage made of the old accumulator, leaves the accumulator as it was or empty,
  and makes \<open>p\<close> the chapter label (clearing the section label) if its lower-cased form
  contains \<^verbatim>\<open>chapter\<close>, and the section label otherwise: the text of \<open>p\<close> enters no passage.
\<close>

theorem heading_step:
  "(is_heading p =
      (length p < 100 \<and>
       ((\<exists>a b. lower p = a @ ''chapter'' @ b) \<or>
        (\<exists>a b. lower p = a @ ''section'' @ b) \<or>
        (list_all (\<lambda>c. \<not> is_lower_char c) p \<and> list_ex is_upper_char p) \<or>
        (\<exists>ds r. ds \<noteq> [] \<and> list_all is_digit ds \<and> p = ds @ ''.'' @ r))))
   \<and> (strip raw = p \<and> p \<noteq> [] \<and> is_heading p \<longrightarrow>
        chunks (para_step book_name s raw) =
          (if MIN_CHUNK_SIZE \<le> length (current_chunk s)
           then chunks s @ [\<lparr>ctext = strip (current_chunk s), cbook = book_name,
                             cchapter = current_chapter s, csection = current_section s,
                             chunk_id = chunk_count s\<rparr>]
           else chunks s)
        \<and> current_chunk (para_step book_name s raw) =
          (if MIN_CHUNK_SIZE \<le> length (current_chunk s) then [] else current_chunk s)
        \<and> chunk_count (para_step book_name s raw) =
          (if MIN_CHUNK_SIZE \<le> length (current_chunk s) then chunk_count s + 1 else chunk_count s)
        \<and> current_chapter (para_step book_name s raw) =
          (if (\<exists>a b. lower p = a @ ''chapter'' @ b) then p else current_chapter s)
        \<and> current_section (para_step book_name s raw) =
          (if (\<exists>a b. lower p = a @ ''chapter'' @ b) then [] else p))"
proof (intro conjI impI)
  show "is_heading p =
      (length p < 100 \<and>
       ((\<exists>a b. lower p = a @ ''chapter'' @ b) \<or>
        (\<exists>a b. lower p = a @ ''section'' @ b) \<or>
        (list_all (\<lambda>c. \<not> is_lower_char c) p \<and> list_ex is_upper_char p) \<or>
        (\<exists>ds r. ds \<noteq> [] \<and> list_all is_digit ds \<and> p = ds @ ''.'' @ r)))"
    unfolding is_heading_def contains_iff match_number_dot_iff isupper_def ..
next
  assume h: "strip raw = p \<and> p \<noteq> [] \<and> is_heading p"
  then show "chunks (para_step book_name s raw) =
          (if MIN_CHUNK_SIZE \<le> length (current_chunk s)
           then chunks s @ [\<lparr>ctext = strip (current_chunk s), cbook = book_name,
                             cchapter = current_chapter s, csection = current_section s,
                             chunk_id = chunk_count s\<rparr>]
           else chunks s)"
    by (simp add: para_step_def Let_def flushed_def)
  from h show "current_chunk (para_step book_name s raw) =
          (if MIN_CHUNK_SIZE \<le> length (current_chunk s) then [] else current_chunk s)"
    by (simp add: para_step_def Let_def)
  from h show "chunk_count (para_step book_name s raw) =
          (if MIN_CHUNK_SIZE \<le> length (current_chunk s) then chunk_count s + 1 else chunk_count s)"
    by (simp add: para_step_def Let_def)
  from h show "current_chapter (para_step book_name s raw) =
          (if (\<exists>a b. lower p = a @ ''chapter'' @ b) then p else current_chapter s)"
    unfolding contains_iff [symmetric] by (simp add: para_step_def Let_def)
  from h show "current_section (para_step book_name s raw) =
          (if (\<exists>a b. lower p = a @ ''chapter'' @ b) then [] else p)"
    unfolding contains_iff [symmetric] by (simp add: para_step_def Let_def)
qed

theorem heading_step_witness:
  "strip '' Chapter 1 '' = ''Chapter 1'' \<and> ''Chapter 1'' \<noteq> [] \<and> is_heading ''Chapter 1''
   \<and> chunks (para_step ''Prealgebra'' init_state '' Chapter 1 '') = []
   \<and> current_chunk (para_step ''Prealgebra'' init_state '' Chapter 1 '') = []
   \<and> chunk_count (para_step ''Prealgebra'' init_state '' Chapter 1 '') = 0
   \<and> current_chapter (para_step ''Prealgebra'' init_state '' Chapter 1 '') = ''Chapter 1''
   \<and> current_section (para_step ''Prealgebra'' init_state '' Chapter 1 '') = []"
proof -
  have h: "strip '' Chapter 1 '' = ''Chapter 1'' \<and> ''Chapter 1'' \<noteq> [] \<and> is_heading ''Chapter 1''"
    by code_simp
  have "contains ''chapter'' (lower ''Chapter 1'')"
    by code_simp
  then have c: "\<exists>a b. lower ''Chapter 1'' = a @ ''chapter'' @ b"
    by (simp only: contains_iff)
  from heading_step [where p = "''Chapter 1''" and raw = "'' Chapter 1 ''"
      and book_name = "''Prealgebra''" and s = init_state] h c
  show ?thesis
    by (simp add: init_state_def MIN_CHUNK_SIZE_def)
qed

text \<open>
  C5. For a paragraph \<open>p\<close> that is not a heading and with which the accumulator would pass
  \<open>CHUNK_SIZE\<close>: if the accumulator has at least \<open>MIN_CHUNK_SIZE\<close> characters it is flushed
  as a passage and the next accumulator is its last 30 words, joined by single spaces,
  followed by \<open>p\<close>; if it is shorter, \<open>p\<close> is appended to it. So a passage of the paragraph
  path can be longer than \<open>CHUNK_SIZE\<close>: a text of 1500 letters gives one passage of 1500
  characters.
\<close>

theorem size_step:
  "(strip raw = p \<and> p \<noteq> [] \<and> \<not> is_heading p
     \<and> CHUNK_SIZE < length (current_chunk s) + length p + 2 \<longrightarrow>
    (MIN_CHUNK_SIZE \<le> length (current_chunk s) \<longrightarrow>
       para_step book_name s raw =
         s\<lparr>chunks := chunks s @ [\<lparr>ctext = strip (current_chunk s), cbook = book_name,
                                   cchapter = current_chapter s, csection = current_section s,
                                   chunk_id = chunk_count s\<rparr>],
           chunk_count := chunk_count s + 1,
           current_chunk := join '' '' (last_n 30 (split_ws (current_chunk s)))
                             @ [newline, newline] @ p @ [newline, newline]\<rparr>)
    \<and> (length (current_chunk s) < MIN_CHUNK_SIZE \<longrightarrow>
       para_step book_name s raw = s\<lparr>current_chunk := current_chunk s @ p @ [newline, newline]\<rparr>))
   \<and> map (\<lambda>c. length (ctext c)) (chunk_text (replicate 1500 (CHR ''a'')) book_name) = [1500]
   \<and> CHUNK_SIZE < 1500"
proof -
  have "chunk_text (replicate 1500 (CHR ''a'')) book_name =
           [\<lparr>ctext = replicate 1500 (CHR ''a''), cbook = book_name, cchapter = ''Introduction'',
             csection = [], chunk_id = 0\<rparr>]"
    by (rule chunk_text_letters) (simp_all add: MIN_CHUNK_SIZE_def CHUNK_SIZE_def)
  then show ?thesis
    by (auto simp: para_step_def Let_def flushed_def CHUNK_SIZE_def)
qed

theorem size_step_witness:
  "strip (replicate 700 (CHR ''b'')) = replicate 700 (CHR ''b'')
   \<and> replicate 700 (CHR ''b'') \<noteq> []
   \<and> \<not> is_heading (replicate 700 (CHR ''b''))
   \<and> CHUNK_SIZE < length (current_chunk
         (init_state\<lparr>current_chunk := sample_paragraph @ [newline, newline]\<rparr>))
         + length (replicate 700 (CHR ''b'')) + 2
   \<and> MIN_CHUNK_SIZE \<le> length (current_chunk
         (init_state\<lparr>current_chunk := sample_paragraph @ [newline, newline]\<rparr>))
   \<and> para_step ''Prealgebra''
         (init_state\<lparr>current_chunk := sample_paragraph @ [newline, newline]\<rparr>)
         (replicate 700 (CHR ''b'')) =
       init_state
         \<lparr>chunks := [\<lparr>ctext = sample_paragraph, cbook = ''Prealgebra'',
                       cchapter = ''Introduction'', csection = [], chunk_id = 0\<rparr>],
          chunk_count := 1,
          current_chunk := join '' '' (drop 10 sample_words) @ [newline, newline]
                           @ replicate 700 (CHR ''b'') @ [newline, newline]\<rparr>
   \<and> length (current_chunk init_state) < MIN_CHUNK_SIZE
   \<and> CHUNK_SIZE < length (current_chunk init_state) + length (replicate 1500 (CHR ''a'')) + 2
   \<and> para_step ''Prealgebra'' init_state (replicate 1500 (CHR ''a'')) =
       init_state\<lparr>current_chunk := replicate 1500 (CHR ''a'') @ [newline, newline]\<rparr>"
proof -
  have sp: "strip (replicate n (CHR ''b'')) = replicate n (CHR ''b'')"
       "strip (replicate n (CHR ''a'')) = replicate n (CHR ''a'')" for n
    by (rule strip_id, cases n, simp_all add: is_space_def)+
  have nh: "\<not> is_heading (replicate 700 (CHR ''b''))" "\<not> is_heading (replicate 1500 (CHR ''a''))"
    by (rule not_heading_long, simp)+
  have len: "length sample_paragraph = 359"
    by (simp add: sample_paragraph_def sample_words_def)
  have st: "strip (sample_paragraph @ [newline, newline]) = sample_paragraph"
    by code_simp
  have j: "join '' '' (last_n 30 (split_ws (sample_paragraph @ [newline, newline])))
             = join '' '' (drop 10 sample_words)"
    by code_simp
  from size_step [where raw = "replicate 700 (CHR ''b'')" and p = "replicate 700 (CHR ''b'')"
         and s = "init_state\<lparr>current_chunk := sample_paragraph @ [newline, newline]\<rparr>"
         and book_name = "''Prealgebra''"]
       size_step [where raw = "replicate 1500 (CHR ''a'')" and p = "replicate 1500 (CHR ''a'')"
         and s = init_state and book_name = "''Prealgebra''"]
  show ?thesis
    by (simp add: sp nh len st j CHUNK_SIZE_def MIN_CHUNK_SIZE_def init_state_def)
qed

subsection \<open>The string hashed by generate_chunk_id\<close>

lemma of_char_digit_char: "d < 10 \<Longrightarrow> (of_char (digit_char d) :: nat) = 48 + d"
  by (simp add: digit_char_def)

lemma dec_value_str_nat: "dec_value (str_nat n) = n"
proof (induction n rule: str_nat.induct)
  case (1 n)
  show ?case
  proof (cases "n < 10")
    case True
    then show ?thesis
      by (subst str_nat.simps) (simp add: dec_value_def of_char_digit_char)
  next
    case False
    have "dec_value (str_nat (n div 10) @ [digit_char (n mod 10)])
            = 10 * dec_value (str_nat (n div 10)) + n mod 10"
      by (simp add: dec_value_def of_char_digit_char)
    also have "\<dots> = n" using 1 False by simp
    finally show ?thesis using False by (subst str_nat.simps) simp
  qed
qed

lemma str_nat_inj: "str_nat m = str_nat n \<Longrightarrow> m = n"
  by (metis dec_value_str_nat)

lemma is_digit_digit_char: "d < 10 \<Longrightarrow> is_digit (digit_char d)"
proof -
  assume d: "d < 10"
  have "(of_char (digit_char d) :: int) = int (of_char (digit_char d))"
    by (simp only: of_nat_of_char)
  also have "\<dots> = int (48 + d)"
    using d by (simp only: of_char_digit_char)
  finally show ?thesis using d by (simp add: is_digit_def)
qed

lemma str_nat_digits: "list_all is_digit (str_nat n)"
proof (induction n rule: str_nat.induct)
  case (1 n)
  show ?case
  proof (cases "n < 10")
    case True
    then show ?thesis by (subst str_nat.simps) (simp add: is_digit_digit_char)
  next
    case False
    then show ?thesis using 1 by (subst str_nat.simps) (simp add: is_digit_digit_char)
  qed
qed

lemma str_nat_nonempty: "str_nat n \<noteq> []"
  by (subst str_nat.simps) simp

lemma not_digit_minus: "\<not> is_digit (CHR ''-'')"
  by (simp add: is_digit_def)

lemma not_digit_underscore: "\<not> is_digit (CHR ''_'')"
  by (simp add: is_digit_def)

lemma str_int_inj: "str_int i = str_int j \<Longrightarrow> i = j"
proof -
  assume e: "str_int i = str_int j"
  have hd_digit: "is_digit (hd (str_nat n))" for n
    using str_nat_digits [of n] str_nat_nonempty [of n]
    by (cases "str_nat n") (simp_all add: list_all_iff)
  have neq: "CHR ''-'' # str_nat m \<noteq> str_nat n" for m n
    using hd_digit [of n] not_digit_minus by (metis list.sel(1))
  show "i = j"
  proof (cases "i < 0")
    case True
    note i = this
    show ?thesis
    proof (cases "j < 0")
      case True
      then have "str_nat (nat (- i)) = str_nat (nat (- j))"
        using e i by (simp add: str_int_def)
      then have "nat (- i) = nat (- j)" by (rule str_nat_inj)
      then show ?thesis using i True by simp
    next
      case False
      then show ?thesis using e i neq by (simp add: str_int_def)
    qed
  next
    case False
    note i = this
    show ?thesis
    proof (cases "j < 0")
      case True
      then show ?thesis using e i neq [of "nat (- j)" "nat i"] by (simp add: str_int_def)
    next
      case False
      then have "str_nat (nat i) = str_nat (nat j)"
        using e i by (simp add: str_int_def)
      then have "nat i = nat j" by (rule str_nat_inj)
      then show ?thesis using i False by simp
    qed
  qed
qed

lemma str_int_no_underscore: "CHR ''_'' \<notin> set (str_int i)"
proof -
  have "CHR ''_'' \<notin> set (str_nat n)" for n
    using str_nat_digits [of n] not_digit_underscore by (auto simp: list_all_iff)
  then show ?thesis by (simp add: str_int_def)
qed

lemma split_at_first:
  "x \<notin> set a \<Longrightarrow> x \<notin> set b \<Longrightarrow> a @ x # s = b @ x # t \<Longrightarrow> a = b \<and> s = t"
proof (induction a arbitrary: b)
  case Nil
  then show ?case by (cases b) auto
next
  case (Cons c a)
  then show ?case by (cases b) auto
qed

lemma chunk_content_inj:
  assumes "cbook a = cbook b" "chunk_content a = chunk_content b"
  shows "chunk_id a = chunk_id b \<and> take 100 (ctext a) = take 100 (ctext b)"
proof -
  from assms have "str_int (chunk_id a) @ CHR ''_'' # take 100 (ctext a)
                 = str_int (chunk_id b) @ CHR ''_'' # take 100 (ctext b)"
    by (simp add: chunk_content_def)
  then have "str_int (chunk_id a) = str_int (chunk_id b) \<and> take 100 (ctext a) = take 100 (ctext b)"
    using str_int_no_underscore by (intro split_at_first) auto
  then show ?thesis using str_int_inj by blast
qed

lemma utf8_char_inj_append: "utf8_char c @ r = utf8_char d @ s \<Longrightarrow> c = d \<and> r = s"
proof -
  assume e: "utf8_char c @ r = utf8_char d @ s"
  define n where "n = (of_char c :: nat)"
  define m where "m = (of_char d :: nat)"
  have "n = m \<and> r = s"
  proof (cases "n < 128")
    case True
    note n = this
    show ?thesis
    proof (cases "m < 128")
      case True
      then show ?thesis using e n by (simp add: utf8_char_def n_def m_def Let_def)
    next
      case False
      then show ?thesis using e n by (simp add: utf8_char_def n_def m_def Let_def)
    qed
  next
    case False
    note n = this
    show ?thesis
    proof (cases "m < 128")
      case True
      then show ?thesis using e n by (simp add: utf8_char_def n_def m_def Let_def)
    next
      case False
      then have "n div 64 = m div 64 \<and> n mod 64 = m mod 64 \<and> r = s"
        using e n by (simp add: utf8_char_def n_def m_def Let_def)
      then show ?thesis by (metis div_mult_mod_eq)
    qed
  qed
  then show ?thesis unfolding n_def m_def by simp
qed

lemma encode_inj: "encode s = encode t \<Longrightarrow> s = t"
proof (induction s arbitrary: t)
  case Nil
  then show ?case
    by (cases t) (auto simp: encode_def utf8_char_def Let_def split: if_splits)
next
  case (Cons c s)
  show ?case
  proof (cases t)
    case Nil
    then show ?thesis
      using Cons.prems by (auto simp: encode_def utf8_char_def Let_def split: if_splits)
  next
    case (Cons d t')
    then have "utf8_char c @ encode s = utf8_char d @ encode t'"
      using Cons.prems by (simp add: encode_def)
    then have "c = d \<and> encode s = encode t'" by (rule utf8_char_inj_append)
    then show ?thesis using Cons Cons.IH by auto
  qed
qed

text \<open>A text of the letters a to d is left as it is by clean_text.\<close>

lemma clean_text_plain:
  assumes "set s \<subseteq> set ''abcd''"
  shows "clean_text s = s"
proof -
  have hd_plain: "\<exists>c cs. u = c # cs \<and> c \<in> set ''abcd''" if "u \<noteq> []" "set u \<subseteq> set s" for u
    using that assms by (cases u) auto
  have 1: "re_sub match_ws r s = s" for r
  proof (rule re_sub_no_match)
    fix u assume "u \<noteq> []" "set u \<subseteq> set s"
    then obtain c cs where "u = c # cs" "c \<in> set ''abcd''" using hd_plain by blast
    then show "match_ws u = None" by (auto simp: match_ws_def is_space_def)
  qed
  have 2: "re_sub match_page_number r s = s" for r
  proof (rule re_sub_no_match)
    fix u assume "u \<noteq> []" "set u \<subseteq> set s"
    then obtain c cs where "u = c # cs" "c \<in> set ''abcd''" using hd_plain by blast
    then show "match_page_number u = None" by (auto simp: match_page_number_def newline_def)
  qed
  have 3: "re_sub match_page_footer r s = s" for r
  proof (rule re_sub_no_match)
    fix u assume "u \<noteq> []" "set u \<subseteq> set s"
    then obtain c cs where "u = c # cs" "c \<in> set ''abcd''" using hd_plain by blast
    then show "match_page_footer u = None" by (auto simp: match_page_footer_def newline_def)
  qed
  have 4: "re_sub match_url r s = s" for r
  proof (rule re_sub_no_match)
    fix u assume "u \<noteq> []" "set u \<subseteq> set s"
    then obtain c cs where "u = c # cs" "c \<in> set ''abcd''" using hd_plain by blast
    then show "match_url u = None" by (auto simp: match_url_def)
  qed
  have 5: "re_sub match_email r s = s" for r
  proof (rule re_sub_no_match)
    fix u assume u: "u \<noteq> []" "set u \<subseteq> set s"
    define tok where "tok = takeWhile (\<lambda>c. \<not> is_space c) u"
    have "set (butlast (tl tok)) \<subseteq> set u"
      using tl_butlast_subset [of tok] set_takeWhileD [of _ "\<lambda>c. \<not> is_space c" u]
      unfolding tok_def by blast
    then have "set (butlast (tl tok)) \<subseteq> set ''abcd''"
      using u(2) assms by blast
    then have "\<not> list_ex (\<lambda>c. c = CHR ''@'') (butlast (tl tok))"
      by (auto simp: list_ex_iff)
    then show "match_email u = None" by (simp add: match_email_def tok_def)
  qed
  have 6: "re_sub (match_class P) r s = s" if "\<And>c. c \<in> set ''abcd'' \<Longrightarrow> \<not> P c" for P r
  proof (rule re_sub_no_match)
    fix u assume "u \<noteq> []" "set u \<subseteq> set s"
    then obtain c cs where "u = c # cs" "c \<in> set ''abcd''" using hd_plain by blast
    then show "match_class P u = None" using that by (simp add: match_class_def)
  qed
  have 7: "strip s = s"
  proof (rule strip_id)
    show "s = [] \<or> (\<not> is_space (hd s) \<and> \<not> is_space (last s))"
    proof (cases "s = []")
      case True
      then show ?thesis by simp
    next
      case False
      then have "hd s \<in> set ''abcd''" "last s \<in> set ''abcd''"
        using assms hd_in_set last_in_set by blast+
      then show ?thesis by (auto simp: is_space_def)
    qed
  qed
  have 8: "re_sub (match_class (\<lambda>c. c = CHR 0x22 \<or> c = CHR 0x22)) r s = s" for r
    by (rule 6) auto
  have 9: "re_sub (match_class (\<lambda>c. c = CHR 0x60)) r s = s" for r
    by (rule 6) auto
  have 10: "re_sub (match_class (\<lambda>c. (of_char c :: int) = 8212 \<or> (of_char c :: int) = 8211)) r s = s" for r
    by (rule 6) auto
  show ?thesis
    unfolding clean_text_def Let_def
    by (simp only: 1 2 3 4 5 7 8 9 10)
qed

lemma chunk_text_plain:
  assumes "set s \<subseteq> set ''abcd''" "MIN_CHUNK_SIZE \<le> length s" "length s \<le> 2 * CHUNK_SIZE"
  shows "chunk_text s b =
           [\<lparr>ctext = s, cbook = b, cchapter = ''Introduction'', csection = [], chunk_id = 0\<rparr>]"
proof -
  have c: "clean_text s = s"
    using assms(1) by (rule clean_text_plain)
  have h: "\<not> is_heading s"
    using assms(2) by (intro not_heading_long) (simp add: MIN_CHUNK_SIZE_def)
  have ne: "s \<noteq> []"
    using assms(2) by (auto simp: MIN_CHUNK_SIZE_def)
  have "paragraph_pass (clean_text s) b =
           [\<lparr>ctext = s, cbook = b, cchapter = ''Introduction'', csection = [], chunk_id = 0\<rparr>]"
    using paragraph_pass_clean_text [of s b] h ne assms(2)
    by (simp add: c)
  then show ?thesis
    using assms(3) by (simp add: chunk_text_def Let_def c mult.commute)
qed

text \<open>
  MD5 has 128 bits of state, so on a finite set of more than \<open>2 ^ 128\<close> inputs two
  distinct inputs have the same digest.
\<close>

lemma md5_state_card: "card (UNIV :: md5_state set) = 2 ^ 128"
  by (simp add: card_prod card_word)

lemma md5_hexdigest_collision:
  assumes "finite W" "2 ^ 128 < card W"
  shows "\<exists>x \<in> W. \<exists>y \<in> W. x \<noteq> y \<and> md5_hexdigest (g x) = md5_hexdigest (g y)"
proof -
  define F :: "nat list \<Rightarrow> md5_state" where
    "F = (\<lambda>bs. foldl md5_block (0x67452301, 0xefcdab89, 0x98badcfe, 0x10325476)
                 (chop 64 (md5_pad bs)))"
  have "card ((F \<circ> g) ` W) \<le> card (UNIV :: md5_state set)"
    by (rule card_mono) simp_all
  also have "\<dots> = 2 ^ 128"
    by (rule md5_state_card)
  also have "\<dots> < card W"
    by (rule assms(2))
  finally have "card ((F \<circ> g) ` W) < card W" .
  then have "\<not> inj_on (F \<circ> g) W"
    by (rule pigeonhole)
  then obtain x y where xy: "x \<in> W" "y \<in> W" "x \<noteq> y" "F (g x) = F (g y)"
    by (auto simp: inj_on_def)
  have "md5_hexdigest bs =
          (case F bs of (a0, b0, c0, d0) \<Rightarrow>
             concat (map (\<lambda>b. [hex_char (b div 16), hex_char (b mod 16)])
               (concat (map (\<lambda>w. le_bytes 4 (unat w)) [a0, b0, c0, d0]))))" for bs
    by (simp add: md5_hexdigest_def F_def)
  then have "md5_hexdigest (g x) = md5_hexdigest (g y)"
    using xy(4) by simp
  with xy show ?thesis by blast
qed

lemma chunk_content_inj_long:
  assumes "100 \<le> length (ctext a)" "100 \<le> length (ctext b)"
    and "chunk_content a = chunk_content b"
  shows "cbook a = cbook b \<and> chunk_id a = chunk_id b \<and> take 100 (ctext a) = take 100 (ctext b)"
proof -
  have l: "length (take 100 (ctext a)) = length (take 100 (ctext b))"
    using assms(1,2) by simp
  have "(cbook a @ CHR ''_'' # str_int (chunk_id a) @ ''_'') @ take 100 (ctext a)
      = (cbook b @ CHR ''_'' # str_int (chunk_id b) @ ''_'') @ take 100 (ctext b)"
    using assms(3) by (simp add: chunk_content_def)
  then have et: "cbook a @ CHR ''_'' # str_int (chunk_id a) @ ''_''
             = cbook b @ CHR ''_'' # str_int (chunk_id b) @ ''_''
             \<and> take 100 (ctext a) = take 100 (ctext b)"
    using append_eq_append_conv [OF disjI2 [OF l]] by blast
  then have e: "cbook a @ CHR ''_'' # str_int (chunk_id a) @ ''_''
             = cbook b @ CHR ''_'' # str_int (chunk_id b) @ ''_''"
    and t: "take 100 (ctext a) = take 100 (ctext b)"
    by blast+
  from e have "cbook a @ CHR ''_'' # str_int (chunk_id a) = cbook b @ CHR ''_'' # str_int (chunk_id b)"
    by simp
  then have "rev (cbook a @ CHR ''_'' # str_int (chunk_id a))
           = rev (cbook b @ CHR ''_'' # str_int (chunk_id b))"
    by simp
  then have "rev (str_int (chunk_id a)) @ CHR ''_'' # rev (cbook a)
           = rev (str_int (chunk_id b)) @ CHR ''_'' # rev (cbook b)"
    by simp
  then have "rev (str_int (chunk_id a)) = rev (str_int (chunk_id b)) \<and> rev (cbook a) = rev (cbook b)"
    using str_int_no_underscore by (intro split_at_first) auto
  then have "str_int (chunk_id a) = str_int (chunk_id b)" "cbook a = cbook b"
    by simp_all
  then show ?thesis using t str_int_inj by blast
qed

text \<open>
  C7. The claim: any change to the first 100 characters of the text of a passage gives a
  different id. There are \<open>4 ^ 100\<close> texts of 300 letters that end with 200 letters a and
  start with letters a to d; chunk_text returns each of them as a single passage with
  \<^verbatim>\<open>chunk_id\<close> 0, and the id has 128 bits. So two passages that chunk_text returns for the
  same book, with the same \<^verbatim>\<open>chunk_id\<close> and different first 100 characters, have the same
  id.
\<close>

theorem generate_chunk_id_not_injective:
  "\<not> (\<forall>s t b p q.
         chunk_text s b = [p] \<and> chunk_text t b = [q]
         \<and> cbook p = cbook q \<and> chunk_id p = chunk_id q
         \<and> take 100 (ctext p) \<noteq> take 100 (ctext q)
         \<longrightarrow> generate_chunk_id p \<noteq> generate_chunk_id q)"
proof -
  define W where "W = {w. set w \<subseteq> set ''abcd'' \<and> length w = 100}"
  define P where "P = (\<lambda>w. \<lparr>ctext = w @ replicate 200 (CHR ''a''), cbook = ''Prealgebra'',
    cchapter = ''Introduction'', csection = [], chunk_id = 0\<rparr>)"
  have fin: "finite W"
    unfolding W_def by (rule finite_lists_length_eq) simp
  have "card W = card (set ''abcd'') ^ 100"
    unfolding W_def by (rule card_lists_length_eq) simp
  also have "card (set ''abcd'') = 4"
    by (simp add: card_insert_if)
  finally have "card W = 4 ^ 100" .
  then have big: "2 ^ 128 < card W"
    by simp
  obtain x y where xy: "x \<in> W" "y \<in> W" "x \<noteq> y"
      "md5_hexdigest (encode (chunk_content (P x))) = md5_hexdigest (encode (chunk_content (P y)))"
    using md5_hexdigest_collision [OF fin big, of "\<lambda>w. encode (chunk_content (P w))"] by blast
  have ct: "chunk_text (w @ replicate 200 (CHR ''a'')) ''Prealgebra'' = [P w]" if "w \<in> W" for w
    unfolding P_def
    using that by (intro chunk_text_plain) (auto simp: W_def MIN_CHUNK_SIZE_def CHUNK_SIZE_def)
  have tk: "take 100 (ctext (P w)) = w" if "w \<in> W" for w
    using that by (simp add: P_def W_def)
  have "chunk_text (x @ replicate 200 (CHR ''a'')) ''Prealgebra'' = [P x]
      \<and> chunk_text (y @ replicate 200 (CHR ''a'')) ''Prealgebra'' = [P y]
      \<and> cbook (P x) = cbook (P y) \<and> chunk_id (P x) = chunk_id (P y)
      \<and> take 100 (ctext (P x)) \<noteq> take 100 (ctext (P y))
      \<and> generate_chunk_id (P x) = generate_chunk_id (P y)"
    using xy ct tk by (simp add: generate_chunk_id_def) (simp add: P_def)
  then show ?thesis by blast
qed

text \<open>
  C7, amended. The id of a passage is the MD5 digest of the UTF-8 bytes of
  \<^verbatim>\<open>book_chunkid_text[:100]\<close>. Two passages with the same book name, \<^verbatim>\<open>chunk_id\<close> and first
  100 characters have the same id, whatever follows in their texts. Two passages of the
  same book that differ in \<^verbatim>\<open>chunk_id\<close> or in their first 100 characters are hashed from
  different byte strings; so are two passages with texts of at least 100 characters that
  differ in book name, \<^verbatim>\<open>chunk_id\<close> or first 100 characters.
\<close>

theorem chunk_identity:
  "generate_chunk_id a = md5_hexdigest (encode (chunk_content a))
   \<and> (cbook a = cbook b \<and> chunk_id a = chunk_id b \<and> take 100 (ctext a) = take 100 (ctext b)
        \<longrightarrow> generate_chunk_id a = generate_chunk_id b)
   \<and> (cbook a = cbook b \<and> (chunk_id a \<noteq> chunk_id b \<or> take 100 (ctext a) \<noteq> take 100 (ctext b))
        \<longrightarrow> encode (chunk_content a) \<noteq> encode (chunk_content b))
   \<and> (100 \<le> length (ctext a) \<and> 100 \<le> length (ctext b)
        \<and> (cbook a \<noteq> cbook b \<or> chunk_id a \<noteq> chunk_id b
             \<or> take 100 (ctext a) \<noteq> take 100 (ctext b))
        \<longrightarrow> encode (chunk_content a) \<noteq> encode (chunk_content b))"
proof (intro conjI impI)
  show "generate_chunk_id a = md5_hexdigest (encode (chunk_content a))"
    by (simp add: generate_chunk_id_def)
next
  assume "cbook a = cbook b \<and> chunk_id a = chunk_id b \<and> take 100 (ctext a) = take 100 (ctext b)"
  then show "generate_chunk_id a = generate_chunk_id b"
    by (simp add: generate_chunk_id_def chunk_content_def)
next
  assume h: "cbook a = cbook b \<and> (chunk_id a \<noteq> chunk_id b \<or> take 100 (ctext a) \<noteq> take 100 (ctext b))"
  show "encode (chunk_content a) \<noteq> encode (chunk_content b)"
  proof
    assume "encode (chunk_content a) = encode (chunk_content b)"
    then have "chunk_content a = chunk_content b" by (rule encode_inj)
    with h chunk_content_inj [of a b] show False by blast
  qed
next
  assume h: "100 \<le> length (ctext a) \<and> 100 \<le> length (ctext b)
        \<and> (cbook a \<noteq> cbook b \<or> chunk_id a \<noteq> chunk_id b
             \<or> take 100 (ctext a) \<noteq> take 100 (ctext b))"
  show "encode (chunk_content a) \<noteq> encode (chunk_content b)"
  proof
    assume "encode (chunk_content a) = encode (chunk_content b)"
    then have "chunk_content a = chunk_content b" by (rule encode_inj)
    with h chunk_content_inj_long [of a b] show False by blast
  qed
qed

theorem chunk_identity_witness:
  "cbook 
      \<lparr>ctext = replicate 100 (CHR ''x'') @ ''A'', cbook = ''Prealgebra'', cchapter = ''Introduction'',
        csection = [], chunk_id = 3\<rparr> = cbook 
      \<lparr>ctext = replicate 100 (CHR ''x'') @ ''B'', cbook = ''Prealgebra'', cchapter = ''Chapter 1'',
        csection = [], chunk_id = 3\<rparr>
   \<and> chunk_id 
      \<lparr>ctext = replicate 100 (CHR ''x'') @ ''A'', cbook = ''Prealgebra'', cchapter = ''Introduction'',
        csection = [], chunk_id = 3\<rparr> = chunk_id 
      \<lparr>ctext = replicate 100 (CHR ''x'') @ ''B'', cbook = ''Prealgebra'', cchapter = ''Chapter 1'',
        csection = [], chunk_id = 3\<rparr>
   \<and> take 100 (ctext 
      \<lparr>ctext = replicate 100 (CHR ''x'') @ ''A'', cbook = ''Prealgebra'', cchapter = ''Introduction'',
        csection = [], chunk_id = 3\<rparr>) = take 100 (ctext 
      \<lparr>ctext = replicate 100 (CHR ''x'') @ ''B'', cbook = ''Prealgebra'', cchapter = ''Chapter 1'',
        csection = [], chunk_id = 3\<rparr>)
   \<and> ctext 
      \<lparr>ctext = replicate 100 (CHR ''x'') @ ''A'', cbook = ''Prealgebra'', cchapter = ''Introduction'',
        csection = [], chunk_id = 3\<rparr> \<noteq> ctext 
      \<lparr>ctext = replicate 100 (CHR ''x'') @ ''B'', cbook = ''Prealgebra'', cchapter = ''Chapter 1'',
        csection = [], chunk_id = 3\<rparr>
   \<and> generate_chunk_id 
      \<lparr>ctext = replicate 100 (CHR ''x'') @ ''A'', cbook = ''Prealgebra'', cchapter = ''Introduction'',
        csection = [], chunk_id = 3\<rparr> = generate_chunk_id 
      \<lparr>ctext = replicate 100 (CHR ''x'') @ ''B'', cbook = ''Prealgebra'', cchapter = ''Chapter 1'',
        csection = [], chunk_id = 3\<rparr>
   \<and> cbook 
      \<lparr>ctext = replicate 100 (CHR ''x'') @ ''A'', cbook = ''Prealgebra'', cchapter = ''Introduction'',
        csection = [], chunk_id = 3\<rparr> = cbook 
      \<lparr>ctext = replicate 100 (CHR ''x'') @ ''A'', cbook = ''Prealgebra'', cchapter = ''Introduction'',
        csection = [], chunk_id = 4\<rparr>
   \<and> chunk_id 
      \<lparr>ctext = replicate 100 (CHR ''x'') @ ''A'', cbook = ''Prealgebra'', cchapter = ''Introduction'',
        csection = [], chunk_id = 3\<rparr> \<noteq> chunk_id 
      \<lparr>ctext = replicate 100 (CHR ''x'') @ ''A'', cbook = ''Prealgebra'', cchapter = ''Introduction'',
        csection = [], chunk_id = 4\<rparr>
   \<and> encode (chunk_content 
      \<lparr>ctext = replicate 100 (CHR ''x'') @ ''A'', cbook = ''Prealgebra'', cchapter = ''Introduction'',
        csection = [], chunk_id = 3\<rparr>) \<noteq> encode (chunk_content 
      \<lparr>ctext = replicate 100 (CHR ''x'') @ ''A'', cbook = ''Prealgebra'', cchapter = ''Introduction'',
        csection = [], chunk_id = 4\<rparr>)
   \<and> 100 \<le> length (ctext 
      \<lparr>ctext = replicate 100 (CHR ''x'') @ ''A'', cbook = ''Prealgebra'', cchapter = ''Introduction'',
        csection = [], chunk_id = 3\<rparr>)
   \<and> 100 \<le> length (ctext 
      \<lparr>ctext = replicate 100 (CHR ''x'') @ ''A'', cbook = ''Prealgebra_2e'', cchapter = ''Introduction'',
        csection = [], chunk_id = 3\<rparr>)
   \<and> cbook 
      \<lparr>ctext = replicate 100 (CHR ''x'') @ ''A'', cbook = ''Prealgebra'', cchapter = ''Introduction'',
        csection = [], chunk_id = 3\<rparr> \<noteq> cbook 
      \<lparr>ctext = replicate 100 (CHR ''x'') @ ''A'', cbook = ''Prealgebra_2e'', cchapter = ''Introduction'',
        csection = [], chunk_id = 3\<rparr>
   \<and> encode (chunk_content 
      \<lparr>ctext = replicate 100 (CHR ''x'') @ ''A'', cbook = ''Prealgebra'', cchapter = ''Introduction'',
        csection = [], chunk_id = 3\<rparr>) \<noteq> encode (chunk_content 
      \<lparr>ctext = replicate 100 (CHR ''x'') @ ''A'', cbook = ''Prealgebra_2e'', cchapter = ''Introduction'',
        csection = [], chunk_id = 3\<rparr>)"
  using chunk_identity [of "
      \<lparr>ctext = replicate 100 (CHR ''x'') @ ''A'', cbook = ''Prealgebra'', cchapter = ''Introduction'',
        csection = [], chunk_id = 3\<rparr>" "
      \<lparr>ctext = replicate 100 (CHR ''x'') @ ''B'', cbook = ''Prealgebra'', cchapter = ''Chapter 1'',
        csection = [], chunk_id = 3\<rparr>"]
        chunk_identity [of "
      \<lparr>ctext = replicate 100 (CHR ''x'') @ ''A'', cbook = ''Prealgebra'', cchapter = ''Introduction'',
        csection = [], chunk_id = 3\<rparr>" "
      \<lparr>ctext = replicate 100 (CHR ''x'') @ ''A'', cbook = ''Prealgebra'', cchapter = ''Introduction'',
        csection = [], chunk_id = 4\<rparr>"]
        chunk_identity [of "
      \<lparr>ctext = replicate 100 (CHR ''x'') @ ''A'', cbook = ''Prealgebra'', cchapter = ''Introduction'',
        csection = [], chunk_id = 3\<rparr>" "
      \<lparr>ctext = replicate 100 (CHR ''x'') @ ''A'', cbook = ''Prealgebra_2e'', cchapter = ''Introduction'',
        csection = [], chunk_id = 3\<rparr>"]
  by simp

subsection \<open>A failed embedding inside a batch\<close>

lemma embed_batch_acc:
  "embed_batch sv w cs acc = (acc @ fst (embed_batch sv w cs []), snd (embed_batch sv w cs []))"
proof (induction cs arbitrary: w acc)
  case Nil
  then show ?case by simp
next
  case (Cons c cs)
  show ?case
  proof (cases "create_embedding sv w (ctext c)")
    case (Pair r w')
    show ?thesis
    proof (cases r)
      case None
      with Pair Cons.IH [of w' acc] show ?thesis by simp
    next
      case (Some v)
      with Pair Cons.IH [of w' "acc @ [make_vector c v]"] Cons.IH [of w' "[make_vector c v]"]
      show ?thesis by simp
    qed
  qed
qed

lemma embed_batch_append:
  "embed_batch sv w (xs @ ys) acc =
     (case embed_batch sv w xs acc of (vs, w') \<Rightarrow> embed_batch sv w' ys vs)"
proof (induction xs arbitrary: w acc)
  case Nil
  then show ?case by simp
next
  case (Cons c xs)
  show ?case
    by (cases "create_embedding sv w (ctext c)") (auto simp: Cons.IH split: option.splits)
qed

text \<open>
  C9. If the embedding call for a passage \<open>c\<close> of a batch raises, create_embedding
  returns \<^verbatim>\<open>None\<close>, and the vectors of the batch are those of the passages before \<open>c\<close>
  followed by those of the passages after \<open>c\<close>, which are embedded as usual from the state
  the failed call left; the batch is then upserted with these vectors (if there is one),
  so the failure does not fail the batch.
\<close>

theorem embedding_failure_skips_passage:
  "embed_batch sv w pre [] = (vs1, w1)
   \<and> embed sv w1 (if length (ctext c) div 4 > 8000 then take (8000 * 4) (ctext c) else ctext c)
       = (Inl e, w2)
   \<and> embed_batch sv w2 post [] = (vs2, w3)
   \<longrightarrow> create_embedding sv w1 (ctext c) = (None, w2)
       \<and> embed_batch sv w (pre @ c # post) [] = (vs1 @ vs2, w3)
       \<and> process_batch sv w (pre @ c # post)
           = (if vs1 @ vs2 \<noteq> [] then upsert sv w3 (vs1 @ vs2) else (Inr (), w3))"
proof (intro impI)
  assume h: "embed_batch sv w pre [] = (vs1, w1)
   \<and> embed sv w1 (if length (ctext c) div 4 > 8000 then take (8000 * 4) (ctext c) else ctext c)
       = (Inl e, w2)
   \<and> embed_batch sv w2 post [] = (vs2, w3)"
  then have ce: "create_embedding sv w1 (ctext c) = (None, w2)"
    by (simp add: create_embedding_def Let_def)
  have "embed_batch sv w2 post vs1 = (vs1 @ vs2, w3)"
    using h embed_batch_acc [of sv w2 post vs1] by simp
  then have eb: "embed_batch sv w (pre @ c # post) [] = (vs1 @ vs2, w3)"
    using h ce by (simp add: embed_batch_append)
  then have "process_batch sv w (pre @ c # post)
           = (if vs1 @ vs2 \<noteq> [] then upsert sv w3 (vs1 @ vs2) else (Inr (), w3))"
    by (simp add: process_batch_def)
  with ce eb show "create_embedding sv w1 (ctext c) = (None, w2)
       \<and> embed_batch sv w (pre @ c # post) [] = (vs1 @ vs2, w3)
       \<and> process_batch sv w (pre @ c # post)
           = (if vs1 @ vs2 \<noteq> [] then upsert sv w3 (vs1 @ vs2) else (Inr (), w3))"
    by simp
qed

theorem embedding_failure_skips_passage_witness:
  "embed_batch sample_services 0 [sample_chunk ''first'' 0] []
     = ([make_vector (sample_chunk ''first'' 0) ''tsrif''], 1)
   \<and> embed sample_services 1
        (if length (ctext (sample_chunk ''bad'' 1)) div 4 > 8000
         then take (8000 * 4) (ctext (sample_chunk ''bad'' 1)) else ctext (sample_chunk ''bad'' 1))
       = (Inl (Error ''timeout''), 2)
   \<and> embed_batch sample_services 2 [sample_chunk ''third one'' 2] []
     = ([make_vector (sample_chunk ''third one'' 2) ''eno driht''], 3)
   \<and> create_embedding sample_services 1 (ctext (sample_chunk ''bad'' 1)) = (None, 2)
   \<and> embed_batch sample_services 0
        [sample_chunk ''first'' 0, sample_chunk ''bad'' 1, sample_chunk ''third one'' 2] []
     = ([make_vector (sample_chunk ''first'' 0) ''tsrif'', make_vector (sample_chunk ''third one'' 2) ''eno driht''], 3)
   \<and> process_batch sample_services 0
        [sample_chunk ''first'' 0, sample_chunk ''bad'' 1, sample_chunk ''third one'' 2]
     = (Inr (), 103)"
proof -
  have a: "embed_batch sample_services 0 [sample_chunk ''first'' 0] []
     = ([make_vector (sample_chunk ''first'' 0) ''tsrif''], 1)"
    by (simp add: create_embedding_def sample_services_def sample_chunk_def)
  have b: "embed sample_services 1
        (if length (ctext (sample_chunk ''bad'' 1)) div 4 > 8000
         then take (8000 * 4) (ctext (sample_chunk ''bad'' 1)) else ctext (sample_chunk ''bad'' 1))
       = (Inl (Error ''timeout''), 2)"
    by (simp add: sample_services_def sample_chunk_def)
  have c: "embed_batch sample_services 2 [sample_chunk ''third one'' 2] []
     = ([make_vector (sample_chunk ''third one'' 2) ''eno driht''], 3)"
    by (simp add: create_embedding_def sample_services_def sample_chunk_def)
  have u: "upsert sample_services 3 vs = (Inr (), 103)" for vs
    by (simp add: sample_services_def)
  from embedding_failure_skips_passage [where sv = sample_services and w = 0
      and pre = "[sample_chunk ''first'' 0]" and c = "sample_chunk ''bad'' 1"
      and post = "[sample_chunk ''third one'' 2]" and ?w1.0 = 1 and ?w2.0 = 2 and ?w3.0 = 3
      and ?vs1.0 = "[make_vector (sample_chunk ''first'' 0) ''tsrif'']"
      and ?vs2.0 = "[make_vector (sample_chunk ''third one'' 2) ''eno driht'']"
      and e = "Error ''timeout''"] a b c
  show ?thesis by (simp add: u)
qed

end
